theory Spec2Isabelle
  imports Main
begin

section \<open>Data model of the booking service\<close>

text \<open>
  The entities are the ORM rows that \<^verbatim>\<open>crud.py\<close> reads and writes. Their table
  declarations (\<^verbatim>\<open>models.py\<close>) are not part of the sources at hand, so each record
  lists exactly the columns that \<^verbatim>\<open>crud.py\<close> touches; a column that the code tests
  against \<^verbatim>\<open>None\<close> is an option. Field names carry a one-letter prefix for the
  table (\<open>z_\<close>, \<open>p_\<close>, \<open>s_\<close>, \<open>b_\<close>), since several tables share column names.

  A datetime is an instant on the canonical UTC clock, counted in seconds as an
  integer: the code treats a naive datetime as UTC (\<^verbatim>\<open>replace(tzinfo=timezone.utc)\<close>),
  which is the identity on instants.
\<close>

type_synonym time = int

record zone =
  z_id :: nat
  z_name :: string
  z_address :: string
  z_is_active :: bool
  z_closure_reason :: "string option"
  z_closed_until :: "time option"

record place =
  p_id :: nat
  p_zone_id :: "nat option"
  p_name :: string
  p_is_active :: bool

record slot =
  s_id :: nat
  s_place_id :: "nat option"
  s_start_time :: time
  s_end_time :: time
  s_is_available :: bool

record booking =
  b_id :: nat
  b_user_id :: nat
  b_slot_id :: "nat option"
  b_status :: string
  b_zone_name :: "string option"
  b_zone_address :: "string option"
  b_start_time :: "time option"
  b_end_time :: "time option"
  b_cancellation_reason :: "string option"

text \<open>The committed content of the store: one list of rows per table, in table order.\<close>

record db =
  zones :: "zone list"
  places :: "place list"
  slots :: "slot list"
  bookings :: "booking list"

subsection \<open>Queries\<close>

text \<open>
  \<^verbatim>\<open>session.get(Model, pk)\<close> and a select on the primary key: the row with that id.
\<close>

definition get_zone :: "db \<Rightarrow> nat \<Rightarrow> zone option" where
  "get_zone d i = find (\<lambda>z. z_id z = i) (zones d)"

definition get_place :: "db \<Rightarrow> nat \<Rightarrow> place option" where
  "get_place d i = find (\<lambda>p. p_id p = i) (places d)"

definition get_slot :: "db \<Rightarrow> nat \<Rightarrow> slot option" where
  "get_slot d i = find (\<lambda>s. s_id s = i) (slots d)"

definition get_booking :: "db \<Rightarrow> nat \<Rightarrow> booking option" where
  "get_booking d i = find (\<lambda>b. b_id b = i) (bookings d)"

text \<open>
  SQL comparison of a nullable column with a value: a NULL operand makes the
  condition unknown, and the row is not selected.
\<close>

definition sql_lt :: "time option \<Rightarrow> time \<Rightarrow> bool" where
  "sql_lt c v = (case c of None \<Rightarrow> False | Some x \<Rightarrow> x < v)"

definition sql_gt :: "time option \<Rightarrow> time \<Rightarrow> bool" where
  "sql_gt c v = (case c of None \<Rightarrow> False | Some x \<Rightarrow> v < x)"

definition sql_le :: "time option \<Rightarrow> time \<Rightarrow> bool" where
  "sql_le c v = (case c of None \<Rightarrow> False | Some x \<Rightarrow> x \<le> v)"

text \<open>
  The inner joins \<^verbatim>\<open>Booking JOIN Slot ON Slot.id == Booking.slot_id JOIN Place ON
  Place.id == Slot.place_id\<close>: the slot row of a booking, and the \<^verbatim>\<open>zone_id\<close> column of
  the place row its slot joins to. A booking whose chain of references breaks joins
  to nothing.
\<close>

definition booking_slot :: "db \<Rightarrow> booking \<Rightarrow> slot option" where
  "booking_slot d b = (case b_slot_id b of None \<Rightarrow> None | Some i \<Rightarrow> get_slot d i)"

definition slot_zone_id :: "db \<Rightarrow> slot \<Rightarrow> nat option" where
  "slot_zone_id d s =
     (case s_place_id s of None \<Rightarrow> None
      | Some i \<Rightarrow> (case get_place d i of None \<Rightarrow> None | Some p \<Rightarrow> p_zone_id p))"

definition booking_zone_id :: "db \<Rightarrow> booking \<Rightarrow> nat option" where
  "booking_zone_id d b =
     (case booking_slot d b of None \<Rightarrow> None | Some s \<Rightarrow> slot_zone_id d s)"

section \<open>The capacity checker\<close>

text \<open>\<^verbatim>\<open>select(func.count(Place.id)).where(zone_id == ..., is_active)\<close>.\<close>

definition active_places :: "db \<Rightarrow> nat \<Rightarrow> place list" where
  "active_places d zone_id =
     filter (\<lambda>p. p_zone_id p = Some zone_id \<and> p_is_active p) (places d)"

definition max_capacity :: "db \<Rightarrow> nat \<Rightarrow> nat" where
  "max_capacity d zone_id = length (active_places d zone_id)"

text \<open>The second select of \<^verbatim>\<open>check_zone_capacity\<close>: the fetched booking list.\<close>

definition overlapping_bookings :: "db \<Rightarrow> nat \<Rightarrow> time \<Rightarrow> time \<Rightarrow> booking list" where
  "overlapping_bookings d zone_id start_time end_time =
     filter (\<lambda>b. booking_zone_id d b = Some zone_id \<and> b_status b = ''active'' \<and>
                 sql_lt (b_start_time b) end_time \<and> sql_gt (b_end_time b) start_time)
       (bookings d)"

text \<open>The first loop: the start and end of every fetched booking that has both.\<close>

fun booking_points :: "booking list \<Rightarrow> time list" where
  "booking_points [] = []"
| "booking_points (b # bs) =
     (case b_start_time b of
        None \<Rightarrow> booking_points bs
      | Some bt_start \<Rightarrow>
          (case b_end_time b of
             None \<Rightarrow> booking_points bs
           | Some bt_end \<Rightarrow> bt_start # bt_end # booking_points bs))"

text \<open>The inner loop: \<^verbatim>\<open>active_count\<close> after the fetched bookings, at one check time.\<close>

fun count_active :: "booking list \<Rightarrow> time \<Rightarrow> nat" where
  "count_active [] check_time = 0"
| "count_active (b # bs) check_time =
     (case b_start_time b of
        None \<Rightarrow> count_active bs check_time
      | Some b_start \<Rightarrow>
          (case b_end_time b of
             None \<Rightarrow> count_active bs check_time
           | Some b_end \<Rightarrow>
               (if b_start \<le> check_time \<and> check_time < b_end
                then Suc (count_active bs check_time)
                else count_active bs check_time)))"

text \<open>The outer loop over the sorted time points, with its early \<^verbatim>\<open>return False\<close>.\<close>

fun capacity_sweep :: "nat \<Rightarrow> booking list \<Rightarrow> time \<Rightarrow> time \<Rightarrow> time list \<Rightarrow> bool" where
  "capacity_sweep cap obs start_time end_time [] = True"
| "capacity_sweep cap obs start_time end_time (check_time # ts) =
     (if check_time < start_time \<or> check_time \<ge> end_time
      then capacity_sweep cap obs start_time end_time ts
      else
        (let active_count = count_active obs check_time;
             active_count' = (if start_time \<le> check_time \<and> check_time < end_time
                              then active_count + 1 else active_count)
         in if active_count' > cap then False
            else capacity_sweep cap obs start_time end_time ts))"

definition time_points :: "booking list \<Rightarrow> time \<Rightarrow> time \<Rightarrow> time list" where
  "time_points obs start_time end_time =
     sort (remdups (start_time # end_time # booking_points obs))"

definition check_zone_capacity :: "db \<Rightarrow> nat \<Rightarrow> time \<Rightarrow> time \<Rightarrow> bool" where
  "check_zone_capacity d zone_id start_time end_time =
     (if max_capacity d zone_id = 0 then False
      else capacity_sweep (max_capacity d zone_id)
             (overlapping_bookings d zone_id start_time end_time) start_time end_time
             (time_points (overlapping_bookings d zone_id start_time end_time)
                start_time end_time))"

subsection \<open>The checker as the specification words it\<close>

text \<open>A booking's interval contains \<open>t\<close>: \<open>b.start \<le> t < b.end\<close>.\<close>

definition contains_time :: "booking \<Rightarrow> time \<Rightarrow> bool" where
  "contains_time b t =
     (case b_start_time b of None \<Rightarrow> False
      | Some s \<Rightarrow> (case b_end_time b of None \<Rightarrow> False | Some e \<Rightarrow> s \<le> t \<and> t < e))"

text \<open>The number of active places of a zone: the zone's capacity.\<close>

definition active_place_count :: "db \<Rightarrow> nat \<Rightarrow> nat" where
  "active_place_count d z =
     length (filter (\<lambda>p. p_is_active p \<and> p_zone_id p = Some z) (places d))"

text \<open>
  A booking's interval overlaps the candidate \<open>[start_time, end_time)\<close>:
  \<open>b.start < end_time\<close> and \<open>b.end > start_time\<close>.
\<close>

definition overlaps_candidate :: "booking \<Rightarrow> time \<Rightarrow> time \<Rightarrow> bool" where
  "overlaps_candidate b start_time end_time =
     (case b_start_time b of None \<Rightarrow> False
      | Some s \<Rightarrow>
          (case b_end_time b of None \<Rightarrow> False
           | Some e \<Rightarrow> s < end_time \<and> start_time < e))"

text \<open>
  The bookings the checker is to collect: the rows of the bookings table that are
  active, whose slot lies in the zone, and whose interval overlaps the candidate.
\<close>

definition collected :: "db \<Rightarrow> nat \<Rightarrow> time \<Rightarrow> time \<Rightarrow> booking list" where
  "collected d z start_time end_time =
     filter (\<lambda>b. b_status b = ''active'' \<and> booking_zone_id d b = Some z \<and>
                 overlaps_candidate b start_time end_time)
       (bookings d)"

text \<open>The number of collected bookings whose interval contains \<open>t\<close>.\<close>

definition covering :: "db \<Rightarrow> nat \<Rightarrow> time \<Rightarrow> time \<Rightarrow> time \<Rightarrow> nat" where
  "covering d zone_id start_time end_time t =
     length (filter (\<lambda>b. contains_time b t) (collected d zone_id start_time end_time))"

text \<open>
  The boundary points: the candidate's start and end and the start and end of every
  collected booking.
\<close>

definition boundary_points :: "db \<Rightarrow> nat \<Rightarrow> time \<Rightarrow> time \<Rightarrow> time set" where
  "boundary_points d zone_id start_time end_time =
     {start_time, end_time} \<union>
     {t. \<exists>b \<in> set (collected d zone_id start_time end_time).
           b_start_time b = Some t \<or> b_end_time b = Some t}"

section \<open>Booking operations\<close>

text \<open>
  An operation takes the committed store and returns its result with the store it
  leaves behind. A raised exception is the left summand. The clock
  (\<^verbatim>\<open>msk_to_utc(now_msk())\<close>) is the argument \<open>now\<close>. Notifications are sent after the
  commit to an external service and are not part of the store.
\<close>

datatype exc =
    BookingError string
  | BookingExtensionError string
  | MultipleResultsFound
  | ValueError
  | OverflowError

text \<open>
  What the operations use and \<^verbatim>\<open>crud.py\<close> does not define:
  \<^item> \<^verbatim>\<open>settings.MAX_BOOKING_HOURS\<close>;
  \<^item> \<^verbatim>\<open>date.fromisoformat\<close> of the standard library, as the day number of the parsed
    date, \<open>None\<close> where it raises \<^verbatim>\<open>ValueError\<close>;
  \<^item> the uniqueness constraints of the bookings table (declared in \<^verbatim>\<open>models.py\<close>):
    whether the table accepts a new row. A refused row is the \<^verbatim>\<open>IntegrityError\<close> the
    operations catch at commit.
\<close>

record env =
  MAX_BOOKING_HOURS :: int
  fromisoformat :: "string \<Rightarrow> int option"
  booking_unique_ok :: "booking list \<Rightarrow> booking \<Rightarrow> bool"

text \<open>
  The unique constraint on slots, \<^verbatim>\<open>(place_id, start_time, end_time)\<close>, as the comments
  of \<^verbatim>\<open>crud.py\<close> state it: whether the table accepts a new slot at \<^verbatim>\<open>flush\<close>.
  NULL never equals NULL in a unique constraint.
\<close>

definition slot_unique_ok :: "slot list \<Rightarrow> slot \<Rightarrow> bool" where
  "slot_unique_ok ss s =
     (\<not> (\<exists>s' \<in> set ss. s_place_id s' \<noteq> None \<and> s_place_id s' = s_place_id s \<and>
             s_start_time s' = s_start_time s \<and> s_end_time s' = s_end_time s))"

text \<open>An autoincrement primary key: larger than every id of the table.\<close>

definition next_id :: "nat list \<Rightarrow> nat" where
  "next_id ids = Suc (fold max ids 0)"

text \<open>\<^verbatim>\<open>Result.scalar_one_or_none()\<close>: raises on more than one row.\<close>

fun scalar_one_or_none :: "'a list \<Rightarrow> exc + 'a option" where
  "scalar_one_or_none [] = Inr None"
| "scalar_one_or_none [x] = Inr (Some x)"
| "scalar_one_or_none (x # y # rest) = Inl MultipleResultsFound"

text \<open>
  \<^verbatim>\<open>x = None; if ref: x = load(ref)\<close>: a foreign key is falsy when it is NULL or 0.
\<close>

definition if_ref :: "nat option \<Rightarrow> (nat \<Rightarrow> 'a option) \<Rightarrow> 'a option" where
  "if_ref r load = (case r of None \<Rightarrow> None | Some i \<Rightarrow> if i = 0 then None else load i)"

text \<open>Writes to the row with a given primary key.\<close>

definition set_slot_available :: "nat \<Rightarrow> bool \<Rightarrow> slot list \<Rightarrow> slot list" where
  "set_slot_available i v ss =
     map (\<lambda>s. if s_id s = i then s\<lparr>s_is_available := v\<rparr> else s) ss"

definition set_booking_status :: "nat \<Rightarrow> string \<Rightarrow> booking list \<Rightarrow> booking list" where
  "set_booking_status i v bs =
     map (\<lambda>b. if b_id b = i then b\<lparr>b_status := v\<rparr> else b) bs"

subsection \<open>\<^verbatim>\<open>auto_complete_expired_bookings\<close>\<close>

definition auto_complete_expired_bookings :: "time \<Rightarrow> db \<Rightarrow> booking option \<Rightarrow> db" where
  "auto_complete_expired_bookings now d booking =
     (case booking of
        Some b \<Rightarrow>
          (if b_status b = ''active'' \<and> b_end_time b \<noteq> None
           then (case b_end_time b of
                   None \<Rightarrow> d
                 | Some end_time_naive \<Rightarrow>
                     if end_time_naive \<le> now
                     then d\<lparr>bookings := set_booking_status (b_id b) ''completed'' (bookings d)\<rparr>
                     else d)
           else d)
      | None \<Rightarrow>
          d\<lparr>bookings :=
               map (\<lambda>b. if b_status b = ''active'' \<and> sql_le (b_end_time b) now
                        then b\<lparr>b_status := ''completed''\<rparr> else b)
                 (bookings d)\<rparr>)"

subsection \<open>\<^verbatim>\<open>check_user_booking_conflicts\<close>\<close>

definition check_user_booking_conflicts ::
  "db \<Rightarrow> nat \<Rightarrow> time \<Rightarrow> time \<Rightarrow> nat option \<Rightarrow> bool" where
  "check_user_booking_conflicts d user_id start_time end_time exclude_booking_id =
     (let conflicting_bookings =
            filter (\<lambda>b. b_user_id b = user_id \<and> b_status b = ''active'' \<and>
                        sql_lt (b_start_time b) end_time \<and>
                        sql_gt (b_end_time b) start_time \<and>
                        (case exclude_booking_id of None \<Rightarrow> True | Some x \<Rightarrow> b_id b \<noteq> x))
              (bookings d)
      in length conflicting_bookings > 0)"

subsection \<open>\<^verbatim>\<open>create_booking\<close> (fixed slot)\<close>

definition new_booking ::
  "db \<Rightarrow> nat \<Rightarrow> nat \<Rightarrow> zone option \<Rightarrow> time \<Rightarrow> time \<Rightarrow> booking" where
  "new_booking d user_id slot_id z start_time end_time =
     \<lparr>b_id = next_id (map b_id (bookings d)),
      b_user_id = user_id,
      b_slot_id = Some slot_id,
      b_status = ''active'',
      b_zone_name = map_option z_name z,
      b_zone_address = map_option z_address z,
      b_start_time = Some start_time,
      b_end_time = Some end_time,
      b_cancellation_reason = None\<rparr>"

text \<open>
  The place and the zone of the locked slot, loaded one after the other:
  \<^verbatim>\<open>if slot.place_id: place = get(Place, ...)\<close>, then
  \<^verbatim>\<open>if place and place.zone_id: zone = get(Zone, ...)\<close>.
\<close>

definition load_zone :: "db \<Rightarrow> slot \<Rightarrow> zone option" where
  "load_zone d slot =
     (let place = if_ref (s_place_id slot) (get_place d)
      in (case place of None \<Rightarrow> None
          | Some p \<Rightarrow> if_ref (p_zone_id p) (get_zone d)))"

definition create_booking :: "env \<Rightarrow> db \<Rightarrow> nat \<Rightarrow> nat \<Rightarrow> (exc + booking option) \<times> db" where
  "create_booking e d user_id slot_id =
     (case get_slot d slot_id of
        None \<Rightarrow> (Inr None, d)
      | Some slot \<Rightarrow>
          if \<not> s_is_available slot then (Inr None, d)
          else
            let z = load_zone d slot
            in (case scalar_one_or_none
                       (filter (\<lambda>b. b_user_id b = user_id \<and> b_slot_id b = Some (s_id slot) \<and>
                                    b_status b = ''active'') (bookings d)) of
                  Inl x \<Rightarrow> (Inl x, d)
                | Inr (Some existing) \<Rightarrow> (Inr None, d)
                | Inr None \<Rightarrow>
                    if check_user_booking_conflicts d user_id
                         (s_start_time slot) (s_end_time slot) None
                    then (Inr None, d)
                    else if (case z of None \<Rightarrow> False
                             | Some zn \<Rightarrow> \<not> check_zone_capacity d (z_id zn)
                                              (s_start_time slot) (s_end_time slot))
                    then (Inr None, d)
                    else
                      let booking = new_booking d user_id (s_id slot) z
                                      (s_start_time slot) (s_end_time slot)
                      in if \<not> booking_unique_ok e (bookings d) booking
                         then (Inr None, d)
                         else (Inr (Some booking),
                               d\<lparr>slots := set_slot_available (s_id slot) False (slots d),
                                 bookings := bookings d @ [booking]\<rparr>)))"

subsection \<open>\<^verbatim>\<open>create_booking_by_time_range\<close>\<close>

record BookingCreateTimeRange =
  r_zone_id :: nat
  r_date :: string
  r_start_hour :: int
  r_start_minute :: int
  r_end_hour :: int
  r_end_minute :: int

text \<open>
  \<^verbatim>\<open>datetime.combine(target_date, datetime.min.time().replace(hour=h, minute=m))\<close>:
  \<^verbatim>\<open>replace\<close> raises \<^verbatim>\<open>ValueError\<close> outside \<open>0..23\<close> and \<open>0..59\<close>.
\<close>

definition combine :: "int \<Rightarrow> int \<Rightarrow> int \<Rightarrow> exc + time" where
  "combine target_date h m =
     (if 0 \<le> h \<and> h \<le> 23 \<and> 0 \<le> m \<and> m \<le> 59
      then Inr (target_date * 86400 + h * 3600 + m * 60)
      else Inl ValueError)"

text \<open>The overlap scan over the slots of one place, with its \<^verbatim>\<open>break\<close>.\<close>

fun has_conflict_loop :: "slot list \<Rightarrow> bool" where
  "has_conflict_loop [] = False"
| "has_conflict_loop (s # ss) = (if \<not> s_is_available s then True else has_conflict_loop ss)"

definition new_slot :: "db \<Rightarrow> nat option \<Rightarrow> time \<Rightarrow> time \<Rightarrow> slot" where
  "new_slot d place_id start_time end_time =
     \<lparr>s_id = next_id (map s_id (slots d)),
      s_place_id = place_id,
      s_start_time = start_time,
      s_end_time = end_time,
      s_is_available = False\<rparr>"

text \<open>
  The loop over the active places of the zone. It returns from inside the loop with
  the first place that yields a slot; past the last place it raises.
\<close>

fun try_places ::
  "env \<Rightarrow> db \<Rightarrow> nat \<Rightarrow> zone \<Rightarrow> time \<Rightarrow> time \<Rightarrow> place list \<Rightarrow> (exc + booking) \<times> db" where
  "try_places e d user_id z start_time end_time [] =
     (Inl (BookingError ''NO_AVAILABLE_PLACES''), d)"
| "try_places e d user_id z start_time end_time (p # ps) =
     (case scalar_one_or_none
            (filter (\<lambda>s. s_place_id s = Some (p_id p) \<and> s_start_time s = start_time \<and>
                         s_end_time s = end_time) (slots d)) of
        Inl x \<Rightarrow> (Inl x, d)
      | Inr (Some exact_slot) \<Rightarrow>
          if s_is_available exact_slot
          then
            (let booking = new_booking d user_id (s_id exact_slot) (Some z)
                             start_time end_time
             in if \<not> booking_unique_ok e (bookings d) booking
                then (Inl (BookingError ''NO_AVAILABLE_PLACES''), d)
                else (Inr booking,
                      d\<lparr>slots := set_slot_available (s_id exact_slot) False (slots d),
                        bookings := bookings d @ [booking]\<rparr>))
          else try_places e d user_id z start_time end_time ps
      | Inr None \<Rightarrow>
          (let overlapping_slots =
                 filter (\<lambda>s. s_place_id s = Some (p_id p) \<and> s_start_time s < end_time \<and>
                             s_end_time s > start_time) (slots d)
           in if \<not> has_conflict_loop overlapping_slots
              then
                (let slot = new_slot d (Some (p_id p)) start_time end_time;
                     booking = new_booking d user_id (s_id slot) (Some z)
                                 start_time end_time
                 in if \<not> slot_unique_ok (slots d) slot
                    then (Inl (BookingError ''NO_AVAILABLE_PLACES''), d)
                    else if \<not> booking_unique_ok e (bookings d) booking
                    then (Inl (BookingError ''NO_AVAILABLE_PLACES''), d)
                    else (Inr booking,
                          d\<lparr>slots := slots d @ [slot],
                            bookings := bookings d @ [booking]\<rparr>))
              else try_places e d user_id z start_time end_time ps))"

definition create_booking_by_time_range ::
  "env \<Rightarrow> db \<Rightarrow> nat \<Rightarrow> BookingCreateTimeRange \<Rightarrow> (exc + booking) \<times> db" where
  "create_booking_by_time_range e d user_id booking_in =
     (case fromisoformat e (r_date booking_in) of
        None \<Rightarrow> (Inl (BookingError ''INVALID_DATE''), d)
      | Some target_date \<Rightarrow>
     (case combine target_date (r_start_hour booking_in) (r_start_minute booking_in) of
        Inl x \<Rightarrow> (Inl x, d)
      | Inr start_time \<Rightarrow>
     (case combine target_date (r_end_hour booking_in) (r_end_minute booking_in) of
        Inl x \<Rightarrow> (Inl x, d)
      | Inr end_time \<Rightarrow>
          if end_time - start_time \<le> 0
          then (Inl (BookingError ''INVALID_TIME_RANGE''), d)
          else if end_time - start_time > MAX_BOOKING_HOURS e * 3600
          then (Inl (BookingError ''TIME_LIMIT_EXCEEDED''), d)
          else
            (case get_zone d (r_zone_id booking_in) of
               None \<Rightarrow> (Inl (BookingError ''ZONE_INACTIVE''), d)
             | Some z \<Rightarrow>
                 if \<not> z_is_active z
                 then (Inl (BookingError ''ZONE_INACTIVE''), d)
                 else if check_user_booking_conflicts d user_id start_time end_time None
                 then (Inl (BookingError ''USER_CONFLICT''), d)
                 else if \<not> check_zone_capacity d (z_id z) start_time end_time
                 then (Inl (BookingError ''ZONE_CAPACITY_EXCEEDED''), d)
                 else
                   (let places = active_places d (z_id z)
                    in if places = []
                       then (Inl (BookingError ''NO_AVAILABLE_PLACES''), d)
                       else try_places e d user_id z start_time end_time places)))))"

subsection \<open>\<^verbatim>\<open>cancel_booking\<close>\<close>

text \<open>
  The commit of a cancellation only updates rows; no uniqueness constraint refuses
  it, and the handler for \<^verbatim>\<open>IntegrityError\<close> is not reached.
\<close>

definition cancel_booking :: "db \<Rightarrow> nat \<Rightarrow> nat \<Rightarrow> bool \<Rightarrow> booking option \<times> db" where
  "cancel_booking d user_id booking_id is_admin =
     (case get_booking d booking_id of
        None \<Rightarrow> (None, d)
      | Some booking \<Rightarrow>
          if \<not> is_admin \<and> b_user_id booking \<noteq> user_id then (None, d)
          else if b_status booking \<noteq> ''active'' then (Some booking, d)
          else
            (let slots' =
                   (case if_ref (b_slot_id booking) (get_slot d) of
                      None \<Rightarrow> slots d
                    | Some slot \<Rightarrow> set_slot_available (s_id slot) True (slots d))
             in (Some (booking\<lparr>b_status := ''cancelled''\<rparr>),
                 d\<lparr>slots := slots',
                   bookings := set_booking_status (b_id booking) ''cancelled'' (bookings d)\<rparr>)))"

subsection \<open>\<^verbatim>\<open>extend_booking\<close>\<close>

text \<open>The scan of the overlapping slots that raises at the first occupied one.\<close>

fun occupied_loop :: "slot list \<Rightarrow> bool" where
  "occupied_loop [] = False"
| "occupied_loop (s # ss) = (if \<not> s_is_available s then True else occupied_loop ss)"

text \<open>
  The tail of \<^verbatim>\<open>extend_booking\<close>, from the exact-slot lookup on: the slot for the
  continuation interval \<open>[end_time, new_end_time)\<close> on the place of the booking's slot,
  and the new booking.
\<close>

definition extend_on_slot ::
  "env \<Rightarrow> db \<Rightarrow> nat \<Rightarrow> slot \<Rightarrow> zone \<Rightarrow> time \<Rightarrow> time \<Rightarrow> (exc + booking) \<times> db" where
  "extend_on_slot e d user_id slot z end_time new_end_time =
     (case scalar_one_or_none
            (filter (\<lambda>s. s_place_id s \<noteq> None \<and> s_place_id s = s_place_id slot \<and>
                         s_start_time s = end_time \<and> s_end_time s = new_end_time)
               (slots d)) of
        Inl x \<Rightarrow> (Inl x, d)
      | Inr (Some extended_slot) \<Rightarrow>
          if s_is_available extended_slot
          then
            (let booking = new_booking d user_id (s_id extended_slot) (Some z)
                             end_time new_end_time
             in if \<not> booking_unique_ok e (bookings d) booking
                then (Inl (BookingExtensionError ''integrity_error''), d)
                else (Inr booking,
                      d\<lparr>slots := set_slot_available (s_id extended_slot) False (slots d),
                        bookings := bookings d @ [booking]\<rparr>))
          else (Inl (BookingExtensionError ''slot_unavailable''), d)
      | Inr None \<Rightarrow>
          (let overlapping_slots =
                 filter (\<lambda>s. s_place_id s \<noteq> None \<and> s_place_id s = s_place_id slot \<and>
                             s_start_time s < new_end_time \<and> s_end_time s > end_time)
                   (slots d)
           in if occupied_loop overlapping_slots
              then (Inl (BookingExtensionError ''slot_partially_occupied''), d)
              else
                (let extended_slot = new_slot d (s_place_id slot) end_time new_end_time;
                     booking = new_booking d user_id (s_id extended_slot) (Some z)
                                 end_time new_end_time
                 in if \<not> slot_unique_ok (slots d) extended_slot
                    then (Inl (BookingExtensionError ''integrity_error''), d)
                    else if \<not> booking_unique_ok e (bookings d) booking
                    then (Inl (BookingExtensionError ''integrity_error''), d)
                    else (Inr booking,
                          d\<lparr>slots := slots d @ [extended_slot],
                            bookings := bookings d @ [booking]\<rparr>))))"

text \<open>
  \<^verbatim>\<open>booking.end_time + timedelta(hours=extend_hours, minutes=extend_minutes)\<close>:
  \<^verbatim>\<open>timedelta\<close> raises \<^verbatim>\<open>OverflowError\<close> when its days leave \<open>\<plusminus>999999999\<close>, and the sum
  raises it when it leaves the years 1 to 9999 (the seconds \<open>-62135596800\<close> to
  \<open>253402300799\<close> of the clock).
\<close>

definition add_timedelta :: "time \<Rightarrow> int \<Rightarrow> int \<Rightarrow> exc + time" where
  "add_timedelta t hours minutes =
     (let delta = hours * 3600 + minutes * 60
      in if delta < - 999999999 * 86400 \<or> 1000000000 * 86400 \<le> delta
         then Inl OverflowError
         else if t + delta < - 62135596800 \<or> 253402300799 < t + delta
         then Inl OverflowError
         else Inr (t + delta))"

definition extend_booking ::
  "env \<Rightarrow> time \<Rightarrow> db \<Rightarrow> nat \<Rightarrow> nat \<Rightarrow> int \<Rightarrow> int \<Rightarrow> (exc + booking) \<times> db" where
  "extend_booking e now d user_id booking_id extend_hours extend_minutes =
     (case get_booking d booking_id of
        None \<Rightarrow> (Inl (BookingExtensionError ''booking_not_found''), d)
      | Some booking \<Rightarrow>
          if (case b_end_time booking of None \<Rightarrow> False
              | Some end_time_naive \<Rightarrow> end_time_naive \<le> now)
          then (Inl (BookingExtensionError ''booking_expired''),
                auto_complete_expired_bookings now d (Some booking))
          else if b_user_id booking \<noteq> user_id
          then (Inl (BookingExtensionError ''permission_denied''), d)
          else if b_status booking \<noteq> ''active''
          then (Inl (BookingExtensionError ''invalid_status''), d)
          else
     (case b_start_time booking of
        None \<Rightarrow> (Inl (BookingExtensionError ''invalid_data''), d)
      | Some start_time \<Rightarrow>
     (case b_end_time booking of
        None \<Rightarrow> (Inl (BookingExtensionError ''invalid_data''), d)
      | Some end_time \<Rightarrow>
     (case if_ref (b_slot_id booking) (get_slot d) of
        None \<Rightarrow> (Inl (BookingExtensionError ''slot_not_found''), d)
      | Some slot \<Rightarrow>
     (case add_timedelta end_time extend_hours extend_minutes of
        Inl x \<Rightarrow> (Inl x, d)
      | Inr new_end_time \<Rightarrow>
          if new_end_time - start_time > MAX_BOOKING_HOURS e * 3600
          then (Inl (BookingExtensionError ''max_duration_exceeded''), d)
          else if check_user_booking_conflicts d user_id end_time new_end_time
                    (Some booking_id)
          then (Inl (BookingExtensionError ''user_time_conflict''), d)
          else
            (case (case if_ref (s_place_id slot) (get_place d) of
                     None \<Rightarrow> None
                   | Some place \<Rightarrow>
                       (case p_zone_id place of None \<Rightarrow> None
                        | Some zi \<Rightarrow> get_zone d zi)) of
               None \<Rightarrow> (Inl (BookingExtensionError ''zone_not_found''), d)
             | Some z \<Rightarrow>
                 if \<not> check_zone_capacity d (z_id z) end_time new_end_time
                 then (Inl (BookingExtensionError ''zone_capacity_exceeded''), d)
                 else extend_on_slot e d user_id slot z end_time new_end_time))))))"

subsection \<open>\<^verbatim>\<open>close_zone\<close>\<close>

record ZoneCloseRequest =
  c_reason :: string
  c_from_time :: time
  c_to_time :: time

text \<open>
  The where-clause of the select in \<^verbatim>\<open>close_zone\<close>, over the join of a booking with
  its slot, the slot's place and the place's zone.
\<close>

definition affected_by_closure :: "db \<Rightarrow> nat \<Rightarrow> ZoneCloseRequest \<Rightarrow> booking \<Rightarrow> bool" where
  "affected_by_closure d zone_id data b =
     (case booking_slot d b of
        None \<Rightarrow> False
      | Some s \<Rightarrow>
          slot_zone_id d s = Some zone_id \<and> get_zone d zone_id \<noteq> None \<and>
          b_status b = ''active'' \<and>
          s_start_time s < c_to_time data \<and> s_end_time s > c_from_time data)"

text \<open>
  The prefix of the cancellation reason, a Russian phrase for ``zone closed: '',
  as the bytes of its UTF-8 encoding.
\<close>

definition closure_prefix :: string where
  "closure_prefix = map char_of
     [208, 151, 208, 190, 208, 189, 208, 176, 32, 208, 183, 208, 176, 208, 186, 209, 128, 209, 139,
      209, 130, 208, 176, 58, 32 :: nat]"

definition cancel_for_closure :: "ZoneCloseRequest \<Rightarrow> booking \<Rightarrow> booking" where
  "cancel_for_closure data b =
     b\<lparr>b_status := ''cancelled'',
       b_cancellation_reason := Some (closure_prefix @ c_reason data)\<rparr>"

definition close_zone :: "db \<Rightarrow> nat \<Rightarrow> ZoneCloseRequest \<Rightarrow> booking list \<times> db" where
  "close_zone d zone_id data =
     (case get_zone d zone_id of
        None \<Rightarrow> ([], d)
      | Some z \<Rightarrow>
          (let affected_bookings = filter (affected_by_closure d zone_id data) (bookings d)
           in (map (cancel_for_closure data) affected_bookings,
               d\<lparr>zones :=
                    map (\<lambda>z'. if z_id z' = zone_id
                              then z'\<lparr>z_is_active := False,
                                      z_closure_reason := Some (c_reason data),
                                      z_closed_until := Some (c_to_time data)\<rparr>
                              else z') (zones d),
                 slots :=
                    map (\<lambda>s. if \<exists>b \<in> set affected_bookings. b_slot_id b = Some (s_id s)
                             then s\<lparr>s_is_available := True\<rparr> else s) (slots d),
                 bookings :=
                    map (\<lambda>b. if affected_by_closure d zone_id data b
                             then cancel_for_closure data b else b) (bookings d)\<rparr>)))"

section \<open>A small store for concrete evaluations\<close>

text \<open>
  One active zone with one active place. Slot 1 (10:00 to 12:00 of day 0) is booked
  by user 1; slot 2 (12:00 to 14:00) is free.
\<close>

definition demo_zone :: zone where
  "demo_zone =
     \<lparr>z_id = 1, z_name = ''Hall'', z_address = ''Main st'', z_is_active = True,
      z_closure_reason = None, z_closed_until = None\<rparr>"

definition demo_booking :: booking where
  "demo_booking =
     \<lparr>b_id = 1, b_user_id = 1, b_slot_id = Some 1, b_status = ''active'',
      b_zone_name = Some ''Hall'', b_zone_address = Some ''Main st'',
      b_start_time = Some 36000, b_end_time = Some 43200,
      b_cancellation_reason = None\<rparr>"

definition demo_db :: db where
  "demo_db =
     \<lparr>zones = [demo_zone],
      places = [\<lparr>p_id = 1, p_zone_id = Some 1, p_name = ''P1'', p_is_active = True\<rparr>],
      slots = [\<lparr>s_id = 1, s_place_id = Some 1, s_start_time = 36000, s_end_time = 43200,
                 s_is_available = False\<rparr>,
               \<lparr>s_id = 2, s_place_id = Some 1, s_start_time = 43200, s_end_time = 50400,
                 s_is_available = True\<rparr>],
      bookings = [demo_booking]\<rparr>"

definition demo_env :: env where
  "demo_env =
     \<lparr>MAX_BOOKING_HOURS = 6,
      fromisoformat = (\<lambda>s. if s = ''1970-01-01'' then Some 0 else None),
      booking_unique_ok = (\<lambda>bs b. True)\<rparr>"

text \<open>The demo store after user 1 has cancelled booking 1.\<close>

definition demo_cancelled :: db where
  "demo_cancelled = snd (cancel_booking demo_db 1 1 False)"

text \<open>
  The demo store with three bookings: booking 1 ends at 12:00, booking 2 (user 2,
  slot 2) ends at 14:00, booking 3 was cancelled.
\<close>

definition demo_sweep_db :: db where
  "demo_sweep_db =
     demo_db\<lparr>slots := map (\<lambda>s. s\<lparr>s_is_available := False\<rparr>) (slots demo_db),
       bookings :=
       [demo_booking,
        demo_booking\<lparr>b_id := 2, b_user_id := 2, b_slot_id := Some 2,
                     b_start_time := Some 43200, b_end_time := Some 50400\<rparr>,
        demo_booking\<lparr>b_id := 3, b_status := ''cancelled'',
                     b_start_time := Some 28800, b_end_time := Some 36000\<rparr>]\<rparr>"

subsection \<open>The closure effect as the specification words it\<close>

text \<open>
  A booking is hit by the closure of a zone over \<open>[from_time, to_time)\<close> when it is
  active, its slot lies in the zone, and the slot's interval overlaps the window:
  \<open>slot.start < to_time\<close> and \<open>slot.end > from_time\<close>.
\<close>

definition closure_hits :: "db \<Rightarrow> nat \<Rightarrow> time \<Rightarrow> time \<Rightarrow> booking \<Rightarrow> bool" where
  "closure_hits d zone_id from_time to_time b =
     (b_status b = ''active'' \<and> booking_zone_id d b = Some zone_id \<and>
      (case booking_slot d b of
         None \<Rightarrow> False
       | Some s \<Rightarrow> s_start_time s < to_time \<and> s_end_time s > from_time))"

text \<open>A closure of the demo zone from 09:00 to 11:00, and one from 12:00 to 17:00.\<close>

definition demo_closure :: ZoneCloseRequest where
  "demo_closure = \<lparr>c_reason = ''repair'', c_from_time = 32400, c_to_time = 39600\<rparr>"

definition demo_closure_late :: ZoneCloseRequest where
  "demo_closure_late = \<lparr>c_reason = ''repair'', c_from_time = 43200, c_to_time = 61200\<rparr>"

text \<open>The booking that extends booking 1 of the demo store by one hour.\<close>

definition demo_extension :: booking where
  "demo_extension =
     \<lparr>b_id = 2, b_user_id = 1, b_slot_id = Some 3, b_status = ''active'',
      b_zone_name = Some ''Hall'', b_zone_address = Some ''Main st'',
      b_start_time = Some 43200, b_end_time = Some 46800,
      b_cancellation_reason = None\<rparr>"

text \<open>The booking that user 2 gets on slot 2 of the demo store.\<close>

definition demo_second :: booking where
  "demo_second =
     \<lparr>b_id = 2, b_user_id = 2, b_slot_id = Some 2, b_status = ''active'',
      b_zone_name = Some ''Hall'', b_zone_address = Some ''Main st'',
      b_start_time = Some 43200, b_end_time = Some 50400,
      b_cancellation_reason = None\<rparr>"

subsection \<open>The validation of a time-range request as the specification words it\<close>

text \<open>The hour and minute fields are clock values, as the request schema admits them.\<close>

definition valid_clock :: "BookingCreateTimeRange \<Rightarrow> bool" where
  "valid_clock r =
     (0 \<le> r_start_hour r \<and> r_start_hour r \<le> 23 \<and>
      0 \<le> r_start_minute r \<and> r_start_minute r \<le> 59 \<and>
      0 \<le> r_end_hour r \<and> r_end_hour r \<le> 23 \<and>
      0 \<le> r_end_minute r \<and> r_end_minute r \<le> 59)"

text \<open>
  The store's invariant on slots: at most one slot per \<open>(place, start, end)\<close>.
\<close>

definition slots_unique :: "db \<Rightarrow> bool" where
  "slots_unique d =
     distinct (map (\<lambda>s. (s_place_id s, s_start_time s, s_end_time s))
                 (filter (\<lambda>s. s_place_id s \<noteq> None) (slots d)))"

text \<open>The requested interval, when the date parses.\<close>

definition requested_interval :: "env \<Rightarrow> BookingCreateTimeRange \<Rightarrow> (time \<times> time) option" where
  "requested_interval e r =
     (case fromisoformat e (r_date r) of
        None \<Rightarrow> None
      | Some day \<Rightarrow>
          Some (day * 86400 + r_start_hour r * 3600 + r_start_minute r * 60,
                day * 86400 + r_end_hour r * 3600 + r_end_minute r * 60))"

text \<open>
  The checks in the order of the specification: parseable date, end after start,
  duration within the limit, zone exists and is active, no overlap with the user's
  own active bookings, capacity check passes, at least one active place. The
  result is the code of the first check that fails.
\<close>

definition first_failing_check ::
  "env \<Rightarrow> db \<Rightarrow> nat \<Rightarrow> BookingCreateTimeRange \<Rightarrow> string option" where
  "first_failing_check e d user_id r =
     (case requested_interval e r of
        None \<Rightarrow> Some ''INVALID_DATE''
      | Some (start_time, end_time) \<Rightarrow>
          if \<not> end_time > start_time then Some ''INVALID_TIME_RANGE''
          else if \<not> end_time - start_time \<le> MAX_BOOKING_HOURS e * 3600
          then Some ''TIME_LIMIT_EXCEEDED''
          else
            (case get_zone d (r_zone_id r) of
               None \<Rightarrow> Some ''ZONE_INACTIVE''
             | Some z \<Rightarrow>
                 if \<not> z_is_active z then Some ''ZONE_INACTIVE''
                 else if check_user_booking_conflicts d user_id start_time end_time None
                 then Some ''USER_CONFLICT''
                 else if \<not> check_zone_capacity d (r_zone_id r) start_time end_time
                 then Some ''ZONE_CAPACITY_EXCEEDED''
                 else if active_places d (r_zone_id r) = []
                 then Some ''NO_AVAILABLE_PLACES''
                 else None))"

text \<open>Requests against the demo store, all by user 2 for day 0.\<close>

definition demo_request :: "string \<Rightarrow> nat \<Rightarrow> int \<Rightarrow> int \<Rightarrow> BookingCreateTimeRange" where
  "demo_request date_str z h1 h2 =
     \<lparr>r_zone_id = z, r_date = date_str, r_start_hour = h1, r_start_minute = 0,
      r_end_hour = h2, r_end_minute = 0\<rparr>"

text \<open>The demo store with the place deactivated: a zone without active places.\<close>

definition demo_no_places :: db where
  "demo_no_places = demo_db\<lparr>places := map (\<lambda>p. p\<lparr>p_is_active := False\<rparr>) (places demo_db)\<rparr>"

section \<open>Reachable stores and the capacity invariant\<close>

text \<open>
  The number of active bookings whose slot lies in zone \<open>z\<close> and whose interval
  contains the instant \<open>t\<close>.
\<close>

definition occupancy :: "db \<Rightarrow> nat \<Rightarrow> time \<Rightarrow> nat" where
  "occupancy d z t =
     length (filter (\<lambda>b. b_status b = ''active'' \<and> booking_zone_id d b = Some z \<and>
                        contains_time b t) (bookings d))"

definition capacity_inv :: "db \<Rightarrow> bool" where
  "capacity_inv d = (\<forall>z t. occupancy d z t \<le> max_capacity d z)"

text \<open>
  The key constraints of the entity store: primary keys of places and slots are
  unique, place keys are positive, every place refers to an existing zone with a
  positive key (or to none), and every booking refers to an existing slot (or to
  none).
\<close>

definition wf_store :: "db \<Rightarrow> bool" where
  "wf_store d =
     (distinct (map p_id (places d)) \<and> distinct (map s_id (slots d)) \<and>
      (\<forall>p \<in> set (places d).
         p_id p \<noteq> 0 \<and>
         (case p_zone_id p of None \<Rightarrow> True | Some z \<Rightarrow> z \<noteq> 0 \<and> get_zone d z \<noteq> None)) \<and>
      (\<forall>b \<in> set (bookings d).
         case b_slot_id b of None \<Rightarrow> True | Some i \<Rightarrow> get_slot d i \<noteq> None))"

text \<open>
  The stores the engine's operations reach from a store \<open>d0\<close> when they run one
  after the other, each on the store that the one before it has committed:
  fixed-slot create, create by time range, cancel, extend, auto-complete (of one
  booking of the store, or of all) and zone closure, each with any arguments at any
  time. Transactions that overlap in time are not runs of this relation; the
  section on two requests at the same time treats them.
\<close>

inductive reachable :: "env \<Rightarrow> db \<Rightarrow> db \<Rightarrow> bool" for e :: env and d0 :: db where
  start: "reachable e d0 d0"
| fixed_slot_create:
    "reachable e d0 d \<Longrightarrow> reachable e d0 (snd (create_booking e d user_id slot_id))"
| time_range_create:
    "reachable e d0 d \<Longrightarrow>
       reachable e d0 (snd (create_booking_by_time_range e d user_id booking_in))"
| cancel:
    "reachable e d0 d \<Longrightarrow> reachable e d0 (snd (cancel_booking d user_id booking_id is_admin))"
| extend:
    "reachable e d0 d \<Longrightarrow>
       reachable e d0
         (snd (extend_booking e now d user_id booking_id extend_hours extend_minutes))"
| auto_complete_one:
    "reachable e d0 d \<Longrightarrow> get_booking d booking_id = Some b \<Longrightarrow>
       reachable e d0 (auto_complete_expired_bookings now d (Some b))"
| auto_complete_all:
    "reachable e d0 d \<Longrightarrow> reachable e d0 (auto_complete_expired_bookings now d None)"
| closure:
    "reachable e d0 d \<Longrightarrow> reachable e d0 (snd (close_zone d zone_id data))"

subsection \<open>What one operation may change\<close>

text \<open>
  A slot row keeps its key and its place; a booking row keeps its slot and its
  interval and does not become active; a zone row keeps its key.
\<close>

definition same_slot :: "slot \<Rightarrow> slot \<Rightarrow> bool" where
  "same_slot s s' = (s_id s' = s_id s \<and> s_place_id s' = s_place_id s)"

definition relaxed :: "booking \<Rightarrow> booking \<Rightarrow> bool" where
  "relaxed b b' =
     (b_slot_id b' = b_slot_id b \<and> b_start_time b' = b_start_time b \<and>
      b_end_time b' = b_end_time b \<and> (b_status b' = ''active'' \<longrightarrow> b_status b = ''active''))"

definition same_zone :: "zone \<Rightarrow> zone \<Rightarrow> bool" where
  "same_zone z z' = (z_id z' = z_id z)"

text \<open>
  A new booking is admitted by a step from \<open>d\<close> to \<open>d'\<close> when it refers to a slot of
  \<open>d'\<close> and, if that slot lies in a zone, the capacity checker accepted the
  booking's interval for that zone in \<open>d\<close>.
\<close>

definition admitted :: "db \<Rightarrow> db \<Rightarrow> booking \<Rightarrow> bool" where
  "admitted d d' nb =
     ((case b_slot_id nb of None \<Rightarrow> False | Some i \<Rightarrow> get_slot d' i \<noteq> None) \<and>
      (case booking_zone_id d' nb of
         None \<Rightarrow> True
       | Some z \<Rightarrow>
           (case b_start_time nb of
              None \<Rightarrow> False
            | Some st \<Rightarrow>
                (case b_end_time nb of
                   None \<Rightarrow> False
                 | Some en \<Rightarrow> check_zone_capacity d z st en))))"

text \<open>
  One step of the engine: places stay; zone rows keep their keys; slot rows keep
  key and place, and new slots with fresh keys may follow them; booking rows are
  relaxed, and at most one admitted booking may follow them.
\<close>

definition step_rel :: "db \<Rightarrow> db \<Rightarrow> bool" where
  "step_rel d d' =
     (places d' = places d \<and>
      list_all2 same_zone (zones d) (zones d') \<and>
      (\<exists>ss extra. slots d' = ss @ extra \<and> list_all2 same_slot (slots d) ss \<and>
         distinct (map s_id extra) \<and>
         set (map s_id extra) \<inter> set (map s_id (slots d)) = {}) \<and>
      (\<exists>bs extra. bookings d' = bs @ extra \<and> list_all2 relaxed (bookings d) bs \<and>
         length extra \<le> 1 \<and> (\<forall>nb \<in> set extra. admitted d d' nb)))"

section \<open>Slot invariants of reachable stores\<close>

text \<open>The active bookings that refer to the slot with key \<open>i\<close>.\<close>

definition active_on :: "db \<Rightarrow> nat \<Rightarrow> booking list" where
  "active_on d i =
     filter (\<lambda>b. b_slot_id b = Some i \<and> b_status b = ''active'') (bookings d)"

text \<open>
  One active booking per slot at a time: no slot has two active bookings, and an
  available slot has none.
\<close>

definition slot_inv :: "db \<Rightarrow> bool" where
  "slot_inv d =
     (\<forall>i. length (active_on d i) \<le> 1 \<and>
          (case get_slot d i of
             None \<Rightarrow> True
           | Some s \<Rightarrow> s_is_available s \<longrightarrow> active_on d i = []))"

text \<open>A slot row keeps its key, its place and its interval.\<close>

definition kept_slot :: "slot \<Rightarrow> slot \<Rightarrow> bool" where
  "kept_slot s s' =
     (s_id s' = s_id s \<and> s_place_id s' = s_place_id s \<and>
      s_start_time s' = s_start_time s \<and> s_end_time s' = s_end_time s)"

text \<open>
  The three shapes of a step. An update rewrites booking and slot rows in place: no
  booking becomes active, and a slot becomes available only when all its active
  bookings cease to be active. Otherwise the step appends one booking, either on
  an available slot of the store, which it marks unavailable, or on a new,
  unavailable slot that the slots table accepts.
\<close>

definition update_step :: "db \<Rightarrow> db \<Rightarrow> bool" where
  "update_step d d' =
     (\<exists>f g. bookings d' = map f (bookings d) \<and> slots d' = map g (slots d) \<and>
        (\<forall>b. relaxed b (f b)) \<and> (\<forall>s. kept_slot s (g s)) \<and>
        (\<forall>s \<in> set (slots d).
           s_is_available (g s) \<longrightarrow>
             s_is_available s \<or>
             (\<forall>b \<in> set (active_on d (s_id s)). b_status (f b) \<noteq> ''active'')))"

definition book_existing_step :: "db \<Rightarrow> db \<Rightarrow> bool" where
  "book_existing_step d d' =
     (\<exists>x nb. x \<in> set (slots d) \<and> s_is_available x \<and> b_slot_id nb = Some (s_id x) \<and>
        slots d' = set_slot_available (s_id x) False (slots d) \<and>
        bookings d' = bookings d @ [nb])"

definition book_new_step :: "db \<Rightarrow> db \<Rightarrow> bool" where
  "book_new_step d d' =
     (\<exists>ns nb. s_id ns = next_id (map s_id (slots d)) \<and> \<not> s_is_available ns \<and>
        slot_unique_ok (slots d) ns \<and> b_slot_id nb = Some (s_id ns) \<and>
        slots d' = slots d @ [ns] \<and> bookings d' = bookings d @ [nb])"

definition fine_step :: "db \<Rightarrow> db \<Rightarrow> bool" where
  "fine_step d d' = (update_step d d' \<or> book_existing_step d d' \<or> book_new_step d d')"

text \<open>
  The demo store with a second place in the same zone and a free slot 3 on it, from
  11:00 to 13:00, across the end of booking 1. In \<open>demo_tight\<close> the second place
  is inactive, so the zone's capacity is one.
\<close>

definition demo_two :: db where
  "demo_two =
     demo_db\<lparr>places := places demo_db @
                [\<lparr>p_id = 2, p_zone_id = Some 1, p_name = ''P2'', p_is_active = True\<rparr>],
             slots := slots demo_db @
                [\<lparr>s_id = 3, s_place_id = Some 2, s_start_time = 39600, s_end_time = 46800,
                  s_is_available = True\<rparr>]\<rparr>"

definition demo_tight :: db where
  "demo_tight =
     demo_two\<lparr>places := map (\<lambda>p. if p_id p = 2 then p\<lparr>p_is_active := False\<rparr> else p)
                            (places demo_two)\<rparr>"

text \<open>The start and end of each booking of a list.\<close>

definition intervals :: "booking list \<Rightarrow> (time option \<times> time option) list" where
  "intervals bs = map (\<lambda>b. (b_start_time b, b_end_time b)) bs"

section \<open>Two requests at the same time\<close>

text \<open>
  Every request runs in a transaction of its own. Two transactions that start on
  the same committed store \<open>d\<close> read the same rows as long as neither has committed:
  the selects of \<^verbatim>\<open>check_zone_capacity\<close> and of \<^verbatim>\<open>check_user_booking_conflicts\<close> take no
  lock, and the one lock of \<^verbatim>\<open>create_booking_by_time_range\<close> (\<^verbatim>\<open>with_for_update\<close>) is on
  the slot row with exactly the requested place, start and end, so requests for
  different intervals do not wait for each other.

  \<open>commit_after e d d1 d2\<close> is the store after two such transactions: the first
  left \<open>d1\<close> and has committed, the second ran on \<open>d\<close> as well and left \<open>d2\<close>. It
  covers a second transaction that wrote nothing, or that inserted one slot and one
  booking and changed no row of \<open>d\<close>. The inserted rows get the next keys of the
  tables as the first transaction left them, and the tables check their uniqueness
  constraints against the rows the first has committed; a refused row is the
  \<^verbatim>\<open>IntegrityError\<close> after which the second transaction is rolled back. Where the
  second transaction updated a row of \<open>d\<close> the result is \<open>None\<close>.
\<close>

definition commit_after :: "env \<Rightarrow> db \<Rightarrow> db \<Rightarrow> db \<Rightarrow> db option" where
  "commit_after e d d1 d2 =
     (if zones d2 = zones d \<and> places d2 = places d \<and>
         take (length (slots d)) (slots d2) = slots d \<and>
         take (length (bookings d)) (bookings d2) = bookings d
      then
        (case (drop (length (slots d)) (slots d2), drop (length (bookings d)) (bookings d2)) of
           ([], []) \<Rightarrow> Some d1
         | ([ns], [nb]) \<Rightarrow>
             (let slot = ns\<lparr>s_id := next_id (map s_id (slots d1))\<rparr>;
                  booking = nb\<lparr>b_id := next_id (map b_id (bookings d1)),
                               b_slot_id := Some (s_id slot)\<rparr>
              in if \<not> slot_unique_ok (slots d1) slot then Some d1
                 else if \<not> booking_unique_ok e (bookings d1) booking then Some d1
                 else Some (d1\<lparr>slots := slots d1 @ [slot],
                                bookings := bookings d1 @ [booking]\<rparr>))
         | _ \<Rightarrow> None)
      else None)"

text \<open>Two time-range requests, both handled on the committed store \<open>d\<close>.\<close>

definition create_by_time_range_at_once ::
  "env \<Rightarrow> db \<Rightarrow> nat \<Rightarrow> BookingCreateTimeRange \<Rightarrow> nat \<Rightarrow> BookingCreateTimeRange \<Rightarrow>
     db option" where
  "create_by_time_range_at_once e d user1 in1 user2 in2 =
     commit_after e d (snd (create_booking_by_time_range e d user1 in1))
       (snd (create_booking_by_time_range e d user2 in2))"

text \<open>
  The demo zone with its one active place and no slots or bookings yet; the booking
  of user 2 from 11:00 to 13:00; and the store that holds it next to booking 1
  (user 1, 10:00 to 12:00), both on slots of place 1.
\<close>

definition demo_empty :: db where
  "demo_empty = demo_db\<lparr>slots := [], bookings := []\<rparr>"

definition demo_overlap :: booking where
  "demo_overlap =
     \<lparr>b_id = 2, b_user_id = 2, b_slot_id = Some 2, b_status = ''active'',
      b_zone_name = Some ''Hall'', b_zone_address = Some ''Main st'',
      b_start_time = Some 39600, b_end_time = Some 46800,
      b_cancellation_reason = None\<rparr>"

definition demo_overbooked :: db where
  "demo_overbooked =
     demo_db\<lparr>slots := [\<lparr>s_id = 1, s_place_id = Some 1, s_start_time = 36000,
                          s_end_time = 43200, s_is_available = False\<rparr>,
                        \<lparr>s_id = 2, s_place_id = Some 1, s_start_time = 39600,
                          s_end_time = 46800, s_is_available = False\<rparr>],
             bookings := [demo_booking, demo_overlap]\<rparr>"

section \<open>Properties of the capacity checker\<close>

text \<open>The two selects of the checker fetch what the specification names.\<close>

lemma overlapping_bookings_collected:
  "overlapping_bookings d z st en = collected d z st en"
  unfolding overlapping_bookings_def collected_def
  by (rule filter_cong)
     (auto simp: overlaps_candidate_def sql_lt_def sql_gt_def split: option.splits)

lemma max_capacity_count: "max_capacity d z = active_place_count d z"
  unfolding max_capacity_def active_places_def active_place_count_def
  by (rule arg_cong [where f = length], rule filter_cong) auto

lemma count_active_filter:
  "count_active obs t = length (filter (\<lambda>b. contains_time b t) obs)"
  by (induction obs) (auto simp: contains_time_def split: option.splits)

lemma capacity_sweep_iff:
  "capacity_sweep cap obs st en ts \<longleftrightarrow>
     (\<forall>t \<in> set ts. st \<le> t \<and> t < en \<longrightarrow> count_active obs t + 1 \<le> cap)"
  by (induction ts) (auto simp: Let_def)

lemma set_time_points:
  "set (time_points obs st en) = {st, en} \<union> set (booking_points obs)"
  unfolding time_points_def set_sort set_remdups by auto

lemma overlapping_has_times:
  "b \<in> set (overlapping_bookings d z st en) \<Longrightarrow>
     \<exists>s e. b_start_time b = Some s \<and> b_end_time b = Some e \<and> s < en \<and> st < e"
  by (auto simp: overlapping_bookings_def sql_lt_def sql_gt_def split: option.splits)

lemma set_booking_points:
  "set (booking_points obs) =
     {t. \<exists>b \<in> set obs. (\<exists>s e. b_start_time b = Some s \<and> b_end_time b = Some e \<and>
                                (t = s \<or> t = e))}"
  by (induction obs) (auto split: option.splits)

lemma boundary_points_eq:
  "boundary_points d z st en =
     set (time_points (overlapping_bookings d z st en) st en)"
proof -
  have "{t. \<exists>b \<in> set (overlapping_bookings d z st en).
              b_start_time b = Some t \<or> b_end_time b = Some t}
        = set (booking_points (overlapping_bookings d z st en))"
    unfolding set_booking_points
    using overlapping_has_times [of _ d z st en] by fastforce
  then show ?thesis
    by (simp add: boundary_points_def set_time_points
          overlapping_bookings_collected [symmetric])
qed

lemma check_zone_capacity_points:
  "check_zone_capacity d z st en \<longleftrightarrow>
     max_capacity d z \<noteq> 0 \<and>
     (\<forall>t \<in> boundary_points d z st en.
        st \<le> t \<and> t < en \<longrightarrow> covering d z st en t + 1 \<le> max_capacity d z)"
  unfolding boundary_points_eq
  by (auto simp: check_zone_capacity_def capacity_sweep_iff count_active_filter
        covering_def overlapping_bookings_collected [symmetric])

lemma length_filter_mono:
  "(\<And>x. x \<in> set xs \<Longrightarrow> P x \<Longrightarrow> Q x) \<Longrightarrow> length (filter P xs) \<le> length (filter Q xs)"
  by (induction xs) auto

text \<open>
  Every instant of the candidate interval is dominated by a boundary point of the
  interval: the latest point, among the candidate's start and the starts of the
  fetched bookings, that is not after it.
\<close>

lemma covering_boundary_dominates:
  assumes "st \<le> t" "t < en"
  shows "\<exists>t' \<in> boundary_points d z st en. st \<le> t' \<and> t' < en \<and>
           covering d z st en t \<le> covering d z st en t'"
proof -
  let ?obs = "collected d z st en"
  define S where "S = insert st {s. s \<le> t \<and> (\<exists>b \<in> set ?obs. b_start_time b = Some s)}"
  have "S \<subseteq> insert st ((\<lambda>b. the (b_start_time b)) ` set ?obs)"
    unfolding S_def by force
  then have fin: "finite S" by (rule finite_subset) simp
  have ne: "S \<noteq> {}" by (simp add: S_def)
  define t' where "t' = Max S"
  have t'S: "t' \<in> S" unfolding t'_def using fin ne by (rule Max_in)
  have le_t: "t' \<le> t" using t'S assms by (auto simp: S_def)
  have ge_st: "st \<le> t'" unfolding t'_def using fin by (simp add: S_def)
  have bd: "t' \<in> boundary_points d z st en"
    using t'S by (auto simp: S_def boundary_points_def)
  have "covering d z st en t \<le> covering d z st en t'"
    unfolding covering_def
  proof (rule length_filter_mono)
    fix b assume b: "b \<in> set ?obs" and c: "contains_time b t"
    from c obtain s e where se: "b_start_time b = Some s" "b_end_time b = Some e" "s \<le> t" "t < e"
      by (auto simp: contains_time_def split: option.splits)
    have "s \<in> S" using b se by (auto simp: S_def)
    then have "s \<le> t'" unfolding t'_def using fin by simp
    then show "contains_time b t'" using se le_t by (simp add: contains_time_def)
  qed
  then show ?thesis using bd ge_st le_t assms by auto
qed

lemma check_zone_capacity_all_instants:
  "check_zone_capacity d z st en \<longleftrightarrow>
     max_capacity d z \<noteq> 0 \<and>
     (\<forall>t. st \<le> t \<and> t < en \<longrightarrow> covering d z st en t + 1 \<le> max_capacity d z)"
proof -
  have "(\<forall>t \<in> boundary_points d z st en.
           st \<le> t \<and> t < en \<longrightarrow> covering d z st en t + 1 \<le> max_capacity d z)
        \<longleftrightarrow> (\<forall>t. st \<le> t \<and> t < en \<longrightarrow> covering d z st en t + 1 \<le> max_capacity d z)"
    (is "?B \<longleftrightarrow> ?A")
  proof
    assume b: ?B
    show ?A
    proof (intro allI impI)
      fix t assume t: "st \<le> t \<and> t < en"
      then obtain t' where t': "t' \<in> boundary_points d z st en" "st \<le> t'" "t' < en"
        "covering d z st en t \<le> covering d z st en t'"
        using covering_boundary_dominates by blast
      with b have "covering d z st en t' + 1 \<le> max_capacity d z" by blast
      with t'(4) show "covering d z st en t + 1 \<le> max_capacity d z" by linarith
    qed
  next
    assume ?A then show ?B by blast
  qed
  then show ?thesis by (simp add: check_zone_capacity_points)
qed

lemma covering_occupancy:
  "st \<le> t \<Longrightarrow> t < en \<Longrightarrow> covering d z st en t = occupancy d z t"
  unfolding covering_def occupancy_def collected_def filter_filter
  by (rule arg_cong [where f = length], rule filter_cong)
     (auto simp: contains_time_def overlaps_candidate_def split: option.splits)

lemma covering_intervals:
  "covering d z st en t =
     length (filter (\<lambda>(s, e). case s of None \<Rightarrow> False
                              | Some s' \<Rightarrow> (case e of None \<Rightarrow> False | Some e' \<Rightarrow> s' \<le> t \<and> t < e'))
               (intervals (collected d z st en)))"
  by (simp add: covering_def intervals_def filter_map comp_def contains_time_def)

lemma boundary_points_intervals:
  "boundary_points d z st en =
     {st, en} \<union> {t. \<exists>(s, e) \<in> set (intervals (collected d z st en)). s = Some t \<or> e = Some t}"
  by (auto simp: boundary_points_def intervals_def)

lemma check_zone_capacity_intervals:
  assumes "active_place_count d' z' = active_place_count d z"
    and "intervals (collected d' z' st en) = intervals (collected d z st en)"
  shows "check_zone_capacity d' z' st en = check_zone_capacity d z st en"
proof -
  have c: "\<And>t. covering d' z' st en t = covering d z st en t"
    by (simp add: covering_intervals assms(2))
  have b: "boundary_points d' z' st en = boundary_points d z st en"
    by (simp add: boundary_points_intervals assms(2))
  show ?thesis
    unfolding check_zone_capacity_points max_capacity_count by (simp add: c b assms(1))
qed

text \<open>
  C2. \<^verbatim>\<open>check_zone_capacity\<close> is false for a zone without active places. Otherwise
  take the collected bookings: the active bookings of the store whose slot lies in
  the zone and whose interval overlaps the candidate. The check is false exactly
  when, at some boundary point \<open>t\<close> (the candidate's start or end, or the start or
  end of a collected booking) with \<open>start \<le> t < end\<close>, the number of collected
  bookings containing \<open>t\<close>, plus one for the candidate, exceeds the number of active
  places. At every instant of the candidate interval that number is the number of
  all active bookings of the zone containing the instant.
\<close>

theorem check_zone_capacity_boundary:
  "(check_zone_capacity d zone_id start_time end_time \<longleftrightarrow>
      active_place_count d zone_id \<noteq> 0 \<and>
      \<not> (\<exists>t \<in> boundary_points d zone_id start_time end_time.
            start_time \<le> t \<and> t < end_time \<and>
            covering d zone_id start_time end_time t + 1 > active_place_count d zone_id)) \<and>
   (\<forall>t. start_time \<le> t \<and> t < end_time \<longrightarrow>
        covering d zone_id start_time end_time t = occupancy d zone_id t)"
proof (rule conjI)
  show "check_zone_capacity d zone_id start_time end_time \<longleftrightarrow>
      active_place_count d zone_id \<noteq> 0 \<and>
      \<not> (\<exists>t \<in> boundary_points d zone_id start_time end_time.
            start_time \<le> t \<and> t < end_time \<and>
            covering d zone_id start_time end_time t + 1 > active_place_count d zone_id)"
    unfolding check_zone_capacity_points max_capacity_count by (auto simp: not_less)
  show "\<forall>t. start_time \<le> t \<and> t < end_time \<longrightarrow>
        covering d zone_id start_time end_time t = occupancy d zone_id t"
    by (simp add: covering_occupancy)
qed

text \<open>
  The candidate 08:20 to 10:33 in the store with three bookings: of the two rows it
  overlaps, the cancelled booking 3 is not collected and the active booking 1 is.
  The candidate is refused, since at the boundary point 10:00 booking 1 and the
  candidate make two on one place. In the store with two places the candidate
  11:00 to 13:00 is accepted with one collected booking.
\<close>

theorem check_zone_capacity_boundary_witness:
  "collected demo_sweep_db 1 30000 38000 = [demo_booking] \<and>
   active_place_count demo_sweep_db 1 = 1 \<and>
   \<not> check_zone_capacity demo_sweep_db 1 30000 38000 \<and>
   (\<exists>t \<in> boundary_points demo_sweep_db 1 30000 38000.
      30000 \<le> t \<and> t < 38000 \<and>
      covering demo_sweep_db 1 30000 38000 t + 1 > active_place_count demo_sweep_db 1) \<and>
   covering demo_sweep_db 1 30000 38000 36000 = occupancy demo_sweep_db 1 36000 \<and>
   occupancy demo_sweep_db 1 36000 = 1 \<and>
   collected demo_two 1 39600 46800 = [demo_booking] \<and>
   active_place_count demo_two 1 = 2 \<and>
   check_zone_capacity demo_two 1 39600 46800 \<and>
   \<not> (\<exists>t \<in> boundary_points demo_two 1 39600 46800.
        39600 \<le> t \<and> t < 46800 \<and>
        covering demo_two 1 39600 46800 t + 1 > active_place_count demo_two 1)"
proof -
  have f1: "collected demo_sweep_db 1 30000 38000 = [demo_booking]" by code_simp
  have f2: "active_place_count demo_sweep_db 1 = 1" by code_simp
  have f3: "\<not> check_zone_capacity demo_sweep_db 1 30000 38000" by code_simp
  have f4: "occupancy demo_sweep_db 1 36000 = 1" by code_simp
  have f5: "collected demo_two 1 39600 46800 = [demo_booking]" by code_simp
  have f6: "active_place_count demo_two 1 = 2" by code_simp
  have f7: "check_zone_capacity demo_two 1 39600 46800" by code_simp
  note t1 = check_zone_capacity_boundary [of demo_sweep_db 1 30000 38000]
  note t2 = check_zone_capacity_boundary [of demo_two 1 39600 46800]
  have n1: "active_place_count demo_sweep_db 1 \<noteq> 0" using f2 by simp
  have e1: "\<exists>t \<in> boundary_points demo_sweep_db 1 30000 38000.
      30000 \<le> t \<and> t < 38000 \<and>
      covering demo_sweep_db 1 30000 38000 t + 1 > active_place_count demo_sweep_db 1"
    using t1 f3 n1 by blast
  have "(30000::int) \<le> 36000 \<and> (36000::int) < 38000 \<longrightarrow>
        covering demo_sweep_db 1 30000 38000 36000 = occupancy demo_sweep_db 1 36000"
    using t1 [THEN conjunct2] by (rule spec)
  then have e2: "covering demo_sweep_db 1 30000 38000 36000 = occupancy demo_sweep_db 1 36000"
    by simp
  have e3: "\<not> (\<exists>t \<in> boundary_points demo_two 1 39600 46800.
        39600 \<le> t \<and> t < 46800 \<and>
        covering demo_two 1 39600 46800 t + 1 > active_place_count demo_two 1)"
    using t2 f7 by blast
  show ?thesis using f1 f2 f3 f4 f5 f6 f7 e1 e2 e3 by blast
qed

text \<open>
  C3. Sweep-line exactness, for a zone with at least one active place. The check at
  the boundary points decides the check at every instant of the candidate interval,
  so \<^verbatim>\<open>check_zone_capacity\<close> is true if and only if at every instant \<open>t\<close> with
  \<open>start \<le> t < end\<close> the number of active bookings of the zone that overlap the
  candidate and contain \<open>t\<close>, plus one, is at most the number of active places; at
  such an instant those are all the active bookings of the zone containing \<open>t\<close>. The
  result is determined by the number of active places, the intervals of the
  collected bookings and the candidate interval: two stores that agree on these
  get the same answer.
\<close>

theorem sweep_line_exact:
  "0 < active_place_count d zone_id \<longrightarrow>
     (check_zone_capacity d zone_id start_time end_time \<longleftrightarrow>
        (\<forall>t. start_time \<le> t \<and> t < end_time \<longrightarrow>
             covering d zone_id start_time end_time t + 1 \<le> active_place_count d zone_id)) \<and>
     ((\<forall>t \<in> boundary_points d zone_id start_time end_time.
          start_time \<le> t \<and> t < end_time \<longrightarrow>
            covering d zone_id start_time end_time t + 1 \<le> active_place_count d zone_id) \<longleftrightarrow>
      (\<forall>t. start_time \<le> t \<and> t < end_time \<longrightarrow>
           covering d zone_id start_time end_time t + 1 \<le> active_place_count d zone_id)) \<and>
     (\<forall>t. start_time \<le> t \<and> t < end_time \<longrightarrow>
          covering d zone_id start_time end_time t = occupancy d zone_id t) \<and>
     (\<forall>d' zone_id'.
        active_place_count d' zone_id' = active_place_count d zone_id \<and>
        intervals (collected d' zone_id' start_time end_time) =
          intervals (collected d zone_id start_time end_time) \<longrightarrow>
        check_zone_capacity d' zone_id' start_time end_time =
          check_zone_capacity d zone_id start_time end_time)"
proof (intro impI conjI allI)
  assume p: "0 < active_place_count d zone_id"
  then show "check_zone_capacity d zone_id start_time end_time \<longleftrightarrow>
        (\<forall>t. start_time \<le> t \<and> t < end_time \<longrightarrow>
             covering d zone_id start_time end_time t + 1 \<le> active_place_count d zone_id)"
    by (simp add: check_zone_capacity_all_instants max_capacity_count)
  from p show "(\<forall>t \<in> boundary_points d zone_id start_time end_time.
          start_time \<le> t \<and> t < end_time \<longrightarrow>
            covering d zone_id start_time end_time t + 1 \<le> active_place_count d zone_id) \<longleftrightarrow>
      (\<forall>t. start_time \<le> t \<and> t < end_time \<longrightarrow>
           covering d zone_id start_time end_time t + 1 \<le> active_place_count d zone_id)"
    using check_zone_capacity_all_instants [of d zone_id start_time end_time]
      check_zone_capacity_points [of d zone_id start_time end_time]
    unfolding max_capacity_count by blast
next
  fix t
  assume "start_time \<le> t \<and> t < end_time"
  then show "covering d zone_id start_time end_time t = occupancy d zone_id t"
    by (simp add: covering_occupancy)
next
  fix d' zone_id'
  assume a: "active_place_count d' zone_id' = active_place_count d zone_id \<and>
        intervals (collected d' zone_id' start_time end_time) =
          intervals (collected d zone_id start_time end_time)"
  show "check_zone_capacity d' zone_id' start_time end_time =
          check_zone_capacity d zone_id start_time end_time"
    using a [THEN conjunct1] a [THEN conjunct2] by (rule check_zone_capacity_intervals)
qed

text \<open>
  The candidate 11:00 to 13:00 overlaps booking 1 (10:00 to 12:00). In the store
  with two places it is accepted: at 11:30, between the boundary points, booking 1
  and the candidate make two on two places. In the store where the second place is
  inactive it is refused, so some instant of the candidate has no room. For the
  candidate 08:20 to 10:33 the stores with three bookings and with one booking
  collect the same intervals and get the same answer.
\<close>

theorem sweep_line_exact_witness:
  "0 < active_place_count demo_two 1 \<and>
   collected demo_two 1 39600 46800 = [demo_booking] \<and>
   check_zone_capacity demo_two 1 39600 46800 \<and>
   covering demo_two 1 39600 46800 41400 + 1 \<le> active_place_count demo_two 1 \<and>
   covering demo_two 1 39600 46800 41400 = occupancy demo_two 1 41400 \<and>
   occupancy demo_two 1 41400 = 1 \<and>
   0 < active_place_count demo_tight 1 \<and>
   \<not> check_zone_capacity demo_tight 1 39600 46800 \<and>
   \<not> (\<forall>t. 39600 \<le> t \<and> t < 46800 \<longrightarrow>
          covering demo_tight 1 39600 46800 t + 1 \<le> active_place_count demo_tight 1) \<and>
   check_zone_capacity demo_sweep_db 1 30000 38000 =
     check_zone_capacity demo_db 1 30000 38000"
proof -
  have m: "0 < active_place_count demo_two 1" by code_simp
  have f: "collected demo_two 1 39600 46800 = [demo_booking]" by code_simp
  have c: "check_zone_capacity demo_two 1 39600 46800" by code_simp
  have o: "occupancy demo_two 1 41400 = 1" by code_simp
  have m': "0 < active_place_count demo_tight 1" by code_simp
  have c': "\<not> check_zone_capacity demo_tight 1 39600 46800" by code_simp
  have i: "active_place_count demo_sweep_db 1 = active_place_count demo_db 1 \<and>
           intervals (collected demo_sweep_db 1 30000 38000) =
             intervals (collected demo_db 1 30000 38000)"
    by code_simp
  have md: "0 < active_place_count demo_db 1" by code_simp
  note t = sweep_line_exact [of demo_two 1 39600 46800, rule_format, OF m]
  note t' = sweep_line_exact [of demo_tight 1 39600 46800, rule_format, OF m']
  note td = sweep_line_exact [of demo_db 1 30000 38000, rule_format, OF md]
  have a: "\<forall>t. 39600 \<le> t \<and> t < 46800 \<longrightarrow>
          covering demo_two 1 39600 46800 t + 1 \<le> active_place_count demo_two 1"
    using t [THEN conjunct1] c by (rule iffD1)
  have "(39600::int) \<le> 41400 \<and> (41400::int) < 46800 \<longrightarrow>
          covering demo_two 1 39600 46800 41400 + 1 \<le> active_place_count demo_two 1"
    using a by (rule spec)
  then have a1: "covering demo_two 1 39600 46800 41400 + 1 \<le> active_place_count demo_two 1"
    by simp
  have "(39600::int) \<le> 41400 \<and> (41400::int) < 46800 \<longrightarrow>
          covering demo_two 1 39600 46800 41400 = occupancy demo_two 1 41400"
    using t [THEN conjunct2, THEN conjunct2, THEN conjunct1] by (rule spec)
  then have a2: "covering demo_two 1 39600 46800 41400 = occupancy demo_two 1 41400"
    by simp
  have a3: "\<not> (\<forall>t. 39600 \<le> t \<and> t < 46800 \<longrightarrow>
          covering demo_tight 1 39600 46800 t + 1 \<le> active_place_count demo_tight 1)"
    using t' [THEN conjunct1] c' by blast
  have a4: "check_zone_capacity demo_sweep_db 1 30000 38000 =
     check_zone_capacity demo_db 1 30000 38000"
    using td [THEN conjunct2, THEN conjunct2, THEN conjunct2, rule_format, OF i] .
  show ?thesis using m f c a1 a2 o m' c' a3 a4 by (intro conjI)
qed

section \<open>Lookups and row updates\<close>

lemma find_Some_P: "find P xs = Some x \<Longrightarrow> P x \<and> x \<in> set xs"
  by (induction xs) (auto split: if_splits)

lemma get_booking_id: "get_booking d i = Some b \<Longrightarrow> b_id b = i"
  unfolding get_booking_def by (drule find_Some_P) simp

lemma get_booking_mem: "get_booking d i = Some b \<Longrightarrow> b \<in> set (bookings d)"
  unfolding get_booking_def by (drule find_Some_P) simp

lemma find_map_same_key:
  "(\<And>x. key (f x) = key x) \<Longrightarrow>
     find (\<lambda>x. key x = k) (map f xs) = map_option f (find (\<lambda>x. key x = k) xs)"
  by (induction xs) auto

lemma get_booking_set_status:
  "get_booking (d\<lparr>bookings := set_booking_status j v (bookings d)\<rparr>) i =
     map_option (\<lambda>b. if b_id b = j then b\<lparr>b_status := v\<rparr> else b) (get_booking d i)"
  unfolding get_booking_def set_booking_status_def
  by (simp add: find_map_same_key [where key = b_id])

section \<open>Cancellation\<close>

text \<open>
  C8. Idempotent cancel: \<^verbatim>\<open>cancel_booking\<close> on a booking that is no longer active
  (cancelled or completed), called by its owner or with the admin flag, returns the
  booking as it is and leaves the whole store as it was. A caller who is neither
  owner nor admin gets the empty result, and the store stays as it was.
\<close>

theorem cancel_booking_idempotent:
  "get_booking d booking_id = Some b \<Longrightarrow>
     (\<not> is_admin \<and> b_user_id b \<noteq> user_id \<longrightarrow>
        cancel_booking d user_id booking_id is_admin = (None, d)) \<and>
     ((is_admin \<or> b_user_id b = user_id) \<and> b_status b \<noteq> ''active'' \<longrightarrow>
        cancel_booking d user_id booking_id is_admin = (Some b, d))"
  by (auto simp: cancel_booking_def)

theorem cancel_booking_idempotent_witness:
  "cancel_booking demo_cancelled 2 1 False = (None, demo_cancelled) \<and>
   cancel_booking demo_cancelled 1 1 False =
     (Some (demo_booking\<lparr>b_status := ''cancelled''\<rparr>), demo_cancelled) \<and>
   cancel_booking demo_cancelled 7 1 True =
     (Some (demo_booking\<lparr>b_status := ''cancelled''\<rparr>), demo_cancelled)"
proof -
  have g: "get_booking demo_cancelled 1 = Some (demo_booking\<lparr>b_status := ''cancelled''\<rparr>)"
    by code_simp
  have u: "b_user_id (demo_booking\<lparr>b_status := ''cancelled''\<rparr>) = 1"
    by (simp add: demo_booking_def)
  show ?thesis
    using cancel_booking_idempotent [OF g, of False 2]
      cancel_booking_idempotent [OF g, of False 1]
      cancel_booking_idempotent [OF g, of True 7] u
    by simp
qed

section \<open>Expiry\<close>

text \<open>
  C10. A booking whose end time equals the current time counts as expired: the
  single-booking form of \<^verbatim>\<open>auto_complete_expired_bookings\<close> turns such an active
  booking into a completed one, and \<^verbatim>\<open>extend_booking\<close> raises \<^verbatim>\<open>booking_expired\<close> for
  it. The sweep form changes nothing but the bookings table, row by row: an active
  row that ends now becomes completed; a row that is not active, or ends strictly
  after now (or has no end time), stays as it is.
\<close>

theorem expiry_boundary:
  "(get_booking d i = Some b \<and> b_status b = ''active'' \<and> b_end_time b = Some now \<longrightarrow>
      get_booking (auto_complete_expired_bookings now d (Some b)) i =
        Some (b\<lparr>b_status := ''completed''\<rparr>) \<and>
      fst (extend_booking e now d user_id i extend_hours extend_minutes) =
        Inl (BookingExtensionError ''booking_expired'')) \<and>
   (let d' = auto_complete_expired_bookings now d None
    in zones d' = zones d \<and> places d' = places d \<and> slots d' = slots d \<and>
       length (bookings d') = length (bookings d) \<and>
       (\<forall>k < length (bookings d).
          (b_status (bookings d ! k) = ''active'' \<and> b_end_time (bookings d ! k) = Some now \<longrightarrow>
             bookings d' ! k = (bookings d ! k)\<lparr>b_status := ''completed''\<rparr>) \<and>
          (b_status (bookings d ! k) \<noteq> ''active'' \<or>
           (\<forall>en. b_end_time (bookings d ! k) = Some en \<longrightarrow> now < en) \<longrightarrow>
             bookings d' ! k = bookings d ! k)))"
proof (intro conjI impI)
  assume a: "get_booking d i = Some b \<and> b_status b = ''active'' \<and> b_end_time b = Some now"
  then have id: "b_id b = i" using get_booking_id by blast
  from a id show "get_booking (auto_complete_expired_bookings now d (Some b)) i =
        Some (b\<lparr>b_status := ''completed''\<rparr>)"
    by (simp add: auto_complete_expired_bookings_def get_booking_set_status)
  from a show "fst (extend_booking e now d user_id i extend_hours extend_minutes) =
        Inl (BookingExtensionError ''booking_expired'')"
    by (simp add: extend_booking_def)
next
  show "let d' = auto_complete_expired_bookings now d None
    in zones d' = zones d \<and> places d' = places d \<and> slots d' = slots d \<and>
       length (bookings d') = length (bookings d) \<and>
       (\<forall>k < length (bookings d).
          (b_status (bookings d ! k) = ''active'' \<and> b_end_time (bookings d ! k) = Some now \<longrightarrow>
             bookings d' ! k = (bookings d ! k)\<lparr>b_status := ''completed''\<rparr>) \<and>
          (b_status (bookings d ! k) \<noteq> ''active'' \<or>
           (\<forall>en. b_end_time (bookings d ! k) = Some en \<longrightarrow> now < en) \<longrightarrow>
             bookings d' ! k = bookings d ! k))"
    by (auto simp: Let_def auto_complete_expired_bookings_def sql_le_def split: option.splits)
qed


text \<open>At 12:00 sharp in the demo stores: booking 1 ends at 12:00.\<close>

theorem expiry_boundary_witness:
  "get_booking (auto_complete_expired_bookings 43200 demo_db (Some demo_booking)) 1 =
     Some (demo_booking\<lparr>b_status := ''completed''\<rparr>) \<and>
   fst (extend_booking demo_env 43200 demo_db 1 1 1 0) =
     Inl (BookingExtensionError ''booking_expired'') \<and>
   bookings (auto_complete_expired_bookings 43200 demo_sweep_db None) ! 0 =
     (bookings demo_sweep_db ! 0)\<lparr>b_status := ''completed''\<rparr> \<and>
   bookings (auto_complete_expired_bookings 43200 demo_sweep_db None) ! 1 =
     bookings demo_sweep_db ! 1 \<and>
   bookings (auto_complete_expired_bookings 43200 demo_sweep_db None) ! 2 =
     bookings demo_sweep_db ! 2"
proof -
  have g: "get_booking demo_db 1 = Some demo_booking \<and> b_status demo_booking = ''active'' \<and>
           b_end_time demo_booking = Some 43200"
    by code_simp
  have l: "length (bookings demo_sweep_db) = 3" by code_simp
  have b0: "b_status (bookings demo_sweep_db ! 0) = ''active'' \<and>
            b_end_time (bookings demo_sweep_db ! 0) = Some 43200" by code_simp
  have b1: "\<forall>en. b_end_time (bookings demo_sweep_db ! 1) = Some en \<longrightarrow> 43200 < en"
    by (simp add: demo_sweep_db_def demo_db_def demo_booking_def)
  have b2: "b_status (bookings demo_sweep_db ! 2) \<noteq> ''active''"
    by (simp add: demo_sweep_db_def demo_db_def demo_booking_def)
  note t1 = expiry_boundary [of demo_db 1 demo_booking 43200 demo_env 1 1 0]
  note t2 = expiry_boundary [of demo_sweep_db 1 demo_booking 43200 demo_env 1 1 0,
      unfolded Let_def, THEN conjunct2, THEN conjunct2, THEN conjunct2, THEN conjunct2,
      THEN conjunct2, rule_format]
  have k0: "(0::nat) < length (bookings demo_sweep_db)"
   and k1: "(1::nat) < length (bookings demo_sweep_db)"
   and k2: "(2::nat) < length (bookings demo_sweep_db)" using l by simp_all
  show ?thesis
    using t1 g t2 [OF k0, THEN conjunct1] b0 t2 [OF k1, THEN conjunct2] b1
      t2 [OF k2, THEN conjunct2] b2
    by blast
qed

text \<open>
  C7. \<^verbatim>\<open>extend_booking\<close> on a booking whose end time has passed raises
  \<^verbatim>\<open>booking_expired\<close>, whoever calls it and whatever the booking's status, and leaves
  the store with that booking completed if it was active (and unchanged otherwise).
  Only the existence check comes before: an unknown id raises \<^verbatim>\<open>booking_not_found\<close>.
\<close>

theorem extend_expired_booking:
  "(get_booking d booking_id = None \<longrightarrow>
      extend_booking e now d user_id booking_id extend_hours extend_minutes =
        (Inl (BookingExtensionError ''booking_not_found''), d)) \<and>
   (\<forall>b en. get_booking d booking_id = Some b \<and> b_end_time b = Some en \<and> en \<le> now \<longrightarrow>
      (let r = extend_booking e now d user_id booking_id extend_hours extend_minutes
       in fst r = Inl (BookingExtensionError ''booking_expired'') \<and>
          zones (snd r) = zones d \<and> places (snd r) = places d \<and> slots (snd r) = slots d \<and>
          bookings (snd r) =
            (if b_status b = ''active''
             then set_booking_status booking_id ''completed'' (bookings d)
             else bookings d) \<and>
          get_booking (snd r) booking_id =
            Some (if b_status b = ''active'' then b\<lparr>b_status := ''completed''\<rparr> else b)))"
proof (intro conjI impI allI)
  assume "get_booking d booking_id = None"
  then show "extend_booking e now d user_id booking_id extend_hours extend_minutes =
        (Inl (BookingExtensionError ''booking_not_found''), d)"
    by (simp add: extend_booking_def)
next
  fix b en
  assume a: "get_booking d booking_id = Some b \<and> b_end_time b = Some en \<and> en \<le> now"
  then have id: "b_id b = booking_id" using get_booking_id by blast
  have r: "extend_booking e now d user_id booking_id extend_hours extend_minutes =
          (Inl (BookingExtensionError ''booking_expired''),
           auto_complete_expired_bookings now d (Some b))"
    using a by (simp add: extend_booking_def)
  show "let r = extend_booking e now d user_id booking_id extend_hours extend_minutes
       in fst r = Inl (BookingExtensionError ''booking_expired'') \<and>
          zones (snd r) = zones d \<and> places (snd r) = places d \<and> slots (snd r) = slots d \<and>
          bookings (snd r) =
            (if b_status b = ''active''
             then set_booking_status booking_id ''completed'' (bookings d)
             else bookings d) \<and>
          get_booking (snd r) booking_id =
            Some (if b_status b = ''active'' then b\<lparr>b_status := ''completed''\<rparr> else b)"
    unfolding r Let_def using a id
    by (simp add: auto_complete_expired_bookings_def get_booking_set_status)
qed

text \<open>
  At 13:53 user 2, who does not own booking 1 (ended at 12:00), asks to extend it.
\<close>

theorem extend_expired_booking_witness:
  "extend_booking demo_env 50000 demo_db 2 9 1 0 =
     (Inl (BookingExtensionError ''booking_not_found''), demo_db) \<and>
   fst (extend_booking demo_env 50000 demo_db 2 1 1 0) =
     Inl (BookingExtensionError ''booking_expired'') \<and>
   get_booking (snd (extend_booking demo_env 50000 demo_db 2 1 1 0)) 1 =
     Some (demo_booking\<lparr>b_status := ''completed''\<rparr>)"
proof -
  have n: "get_booking demo_db 9 = None" by code_simp
  have g: "get_booking demo_db 1 = Some demo_booking \<and> b_end_time demo_booking = Some 43200 \<and>
           (43200::int) \<le> 50000"
    by code_simp
  have a: "b_status demo_booking = ''active''" by (simp add: demo_booking_def)
  note t1 = extend_expired_booking [of demo_db 9 demo_env 50000 2 1 0, THEN conjunct1, rule_format]
  note t2 = extend_expired_booking [of demo_db 1 demo_env 50000 2 1 0, THEN conjunct2,
      rule_format, OF g, unfolded Let_def]
  show ?thesis using t1 [OF n] t2 a by simp
qed

section \<open>Zone closure\<close>

lemma affected_by_closure_hits:
  "get_zone d zone_id \<noteq> None \<Longrightarrow>
     affected_by_closure d zone_id data =
       closure_hits d zone_id (c_from_time data) (c_to_time data)"
  by (auto simp: affected_by_closure_def closure_hits_def booking_zone_id_def fun_eq_iff
        split: option.splits)

lemma get_zone_id: "get_zone d i = Some z \<Longrightarrow> z_id z = i"
  unfolding get_zone_def by (drule find_Some_P) simp

lemma get_slot_id: "get_slot d i = Some s \<Longrightarrow> s_id s = i"
  unfolding get_slot_def by (drule find_Some_P) simp

lemma get_zone_map:
  "zones d' = map f (zones d) \<Longrightarrow> (\<And>x. z_id (f x) = z_id x) \<Longrightarrow>
     get_zone d' i = map_option f (get_zone d i)"
  unfolding get_zone_def by (simp add: find_map_same_key [where key = z_id])

lemma get_slot_map:
  "slots d' = map f (slots d) \<Longrightarrow> (\<And>x. s_id (f x) = s_id x) \<Longrightarrow>
     get_slot d' i = map_option f (get_slot d i)"
  unfolding get_slot_def by (simp add: find_map_same_key [where key = s_id])

text \<open>
  C9. Closing an existing zone over the window \<open>[from_time, to_time)\<close> marks the zone
  inactive with the reason and \<open>closed_until = to_time\<close> and leaves the other zones
  and all places as they were. Row by row, a booking hit by the closure (active, its
  slot in the zone, \<open>slot.start < to_time\<close> and \<open>slot.end > from_time\<close>) becomes
  cancelled with the closure reason, and every other booking stays as it is; a slot
  becomes available when a hit booking refers to it, and stays as it is otherwise.
  The slot of every hit booking is available afterwards, and the result is the list
  of the hit bookings, cancelled.
\<close>

theorem close_zone_effect:
  "get_zone d zone_id = Some z \<Longrightarrow>
   (let r = close_zone d zone_id data; d' = snd r;
        hit = closure_hits d zone_id (c_from_time data) (c_to_time data);
        cancelled = (\<lambda>b. b\<lparr>b_status := ''cancelled'',
                             b_cancellation_reason := Some (closure_prefix @ c_reason data)\<rparr>)
    in get_zone d' zone_id =
         Some (z\<lparr>z_is_active := False, z_closure_reason := Some (c_reason data),
                 z_closed_until := Some (c_to_time data)\<rparr>) \<and>
       (\<forall>i. i \<noteq> zone_id \<longrightarrow> get_zone d' i = get_zone d i) \<and>
       places d' = places d \<and>
       length (bookings d') = length (bookings d) \<and>
       (\<forall>k < length (bookings d).
          bookings d' ! k =
            (if hit (bookings d ! k) then cancelled (bookings d ! k) else bookings d ! k)) \<and>
       length (slots d') = length (slots d) \<and>
       (\<forall>k < length (slots d).
          slots d' ! k =
            (if \<exists>b \<in> set (bookings d). hit b \<and> b_slot_id b = Some (s_id (slots d ! k))
             then (slots d ! k)\<lparr>s_is_available := True\<rparr> else slots d ! k)) \<and>
       (\<forall>b \<in> set (bookings d). hit b \<longrightarrow>
          (case booking_slot d' b of None \<Rightarrow> False | Some s \<Rightarrow> s_is_available s)) \<and>
       fst r = map cancelled (filter hit (bookings d)))"
proof -
  assume z: "get_zone d zone_id = Some z"
  then have zn: "get_zone d zone_id \<noteq> None" by simp
  note hit = affected_by_closure_hits [OF zn, of data]
  let ?hit = "closure_hits d zone_id (c_from_time data) (c_to_time data)"
  let ?cancelled = "\<lambda>b. b\<lparr>b_status := ''cancelled'',
                             b_cancellation_reason := Some (closure_prefix @ c_reason data)\<rparr>"
  let ?fz = "\<lambda>z'. if z_id z' = zone_id
                              then z'\<lparr>z_is_active := False,
                                      z_closure_reason := Some (c_reason data),
                                      z_closed_until := Some (c_to_time data)\<rparr>
                              else z'"
  let ?fs = "\<lambda>s. if \<exists>b \<in> set (filter ?hit (bookings d)). b_slot_id b = Some (s_id s)
                             then s\<lparr>s_is_available := True\<rparr> else s"
  let ?d' = "d\<lparr>zones := map ?fz (zones d), slots := map ?fs (slots d),
               bookings := map (\<lambda>b. if ?hit b then ?cancelled b else b) (bookings d)\<rparr>"
  have r: "close_zone d zone_id data = (map ?cancelled (filter ?hit (bookings d)), ?d')"
    using z by (simp add: close_zone_def hit Let_def cancel_for_closure_def)
  have gz: "\<And>i. get_zone ?d' i = map_option ?fz (get_zone d i)"
    by (rule get_zone_map) simp_all
  have gs: "\<And>i. get_slot ?d' i = map_option ?fs (get_slot d i)"
    by (rule get_slot_map) simp_all
  have c1: "get_zone ?d' zone_id =
         Some (z\<lparr>z_is_active := False, z_closure_reason := Some (c_reason data),
                 z_closed_until := Some (c_to_time data)\<rparr>)"
    unfolding gz using z get_zone_id [OF z] by simp
  have c2: "\<forall>i. i \<noteq> zone_id \<longrightarrow> get_zone ?d' i = get_zone d i"
  proof (intro allI impI)
    fix i assume "i \<noteq> zone_id"
    then show "get_zone ?d' i = get_zone d i"
      unfolding gz by (cases "get_zone d i") (auto dest: get_zone_id)
  qed
  have c8: "\<forall>b \<in> set (bookings d). ?hit b \<longrightarrow>
          (case booking_slot ?d' b of None \<Rightarrow> False | Some s \<Rightarrow> s_is_available s)"
  proof (intro ballI impI)
    fix b assume b: "b \<in> set (bookings d)" and h: "?hit b"
    from h obtain i s where i: "b_slot_id b = Some i" and s: "get_slot d i = Some s"
      by (auto simp: closure_hits_def booking_slot_def split: option.splits)
    have "s_id s = i" using s by (rule get_slot_id)
    then have "?fs s = s\<lparr>s_is_available := True\<rparr>" using b h i by auto
    then show "case booking_slot ?d' b of None \<Rightarrow> False | Some s \<Rightarrow> s_is_available s"
      unfolding booking_slot_def i option.case gs s by simp
  qed
  have c3: "places ?d' = places d" "length (bookings ?d') = length (bookings d)"
    "length (slots ?d') = length (slots d)"
    by simp_all
  have c5: "\<forall>k < length (bookings d).
          bookings ?d' ! k =
            (if ?hit (bookings d ! k) then ?cancelled (bookings d ! k) else bookings d ! k)"
    by simp
  have c7: "\<forall>k < length (slots d).
          slots ?d' ! k =
            (if \<exists>b \<in> set (bookings d). ?hit b \<and> b_slot_id b = Some (s_id (slots d ! k))
             then (slots d ! k)\<lparr>s_is_available := True\<rparr> else slots d ! k)"
    by auto
  show ?thesis
    unfolding Let_def r fst_conv snd_conv
    using c1 c2 c3 c5 c7 c8 by (intro conjI) (assumption | rule refl)+
qed


text \<open>
  Closing the demo zone from 09:00 to 11:00 cancels booking 1 (slot 10:00 to 12:00)
  and frees its slot; booking 2 (slot 12:00 to 14:00) and the cancelled booking 3
  stay as they are.
\<close>

theorem close_zone_effect_witness:
  "fst (close_zone demo_sweep_db 1 demo_closure) =
     [demo_booking\<lparr>b_status := ''cancelled'',
                   b_cancellation_reason := Some (closure_prefix @ ''repair'')\<rparr>] \<and>
   get_zone (snd (close_zone demo_sweep_db 1 demo_closure)) 1 =
     Some (demo_zone\<lparr>z_is_active := False, z_closure_reason := Some ''repair'',
                       z_closed_until := Some 39600\<rparr>) \<and>
   bookings (snd (close_zone demo_sweep_db 1 demo_closure)) ! 1 = bookings demo_sweep_db ! 1 \<and>
   bookings (snd (close_zone demo_sweep_db 1 demo_closure)) ! 2 = bookings demo_sweep_db ! 2 \<and>
   slots (snd (close_zone demo_sweep_db 1 demo_closure)) ! 0 =
     (slots demo_sweep_db ! 0)\<lparr>s_is_available := True\<rparr> \<and>
   slots (snd (close_zone demo_sweep_db 1 demo_closure)) ! 1 = slots demo_sweep_db ! 1"
proof -
  have z: "get_zone demo_sweep_db 1 = Some demo_zone" by code_simp
  let ?hit = "closure_hits demo_sweep_db 1 (c_from_time demo_closure) (c_to_time demo_closure)"
  have f: "filter ?hit (bookings demo_sweep_db) = [demo_booking]" by code_simp
  have h1: "\<not> ?hit (bookings demo_sweep_db ! 1)" by code_simp
  have h2: "\<not> ?hit (bookings demo_sweep_db ! 2)" by code_simp
  have s0: "\<exists>b \<in> set (bookings demo_sweep_db).
               ?hit b \<and> b_slot_id b = Some (s_id (slots demo_sweep_db ! 0))" by code_simp
  have s1: "\<not> (\<exists>b \<in> set (bookings demo_sweep_db).
               ?hit b \<and> b_slot_id b = Some (s_id (slots demo_sweep_db ! 1)))" by code_simp
  have l: "length (bookings demo_sweep_db) = 3" "length (slots demo_sweep_db) = 2"
    by code_simp+
  have c: "c_reason demo_closure = ''repair''" "c_to_time demo_closure = 39600"
    by (simp_all add: demo_closure_def)
  note t = close_zone_effect [OF z, of demo_closure, unfolded Let_def f]
  have k: "(1::nat) < length (bookings demo_sweep_db)" "(2::nat) < length (bookings demo_sweep_db)"
    "(0::nat) < length (slots demo_sweep_db)" "(1::nat) < length (slots demo_sweep_db)"
    using l by simp_all
  from t have b: "\<forall>k < length (bookings demo_sweep_db).
          bookings (snd (close_zone demo_sweep_db 1 demo_closure)) ! k =
            (if ?hit (bookings demo_sweep_db ! k)
             then (bookings demo_sweep_db ! k)\<lparr>b_status := ''cancelled'',
                             b_cancellation_reason := Some (closure_prefix @ c_reason demo_closure)\<rparr>
             else bookings demo_sweep_db ! k)"
    by blast
  from t have sl: "\<forall>k < length (slots demo_sweep_db).
          slots (snd (close_zone demo_sweep_db 1 demo_closure)) ! k =
            (if \<exists>b \<in> set (bookings demo_sweep_db). ?hit b \<and>
                  b_slot_id b = Some (s_id (slots demo_sweep_db ! k))
             then (slots demo_sweep_db ! k)\<lparr>s_is_available := True\<rparr>
             else slots demo_sweep_db ! k)"
    by blast
  have r: "fst (close_zone demo_sweep_db 1 demo_closure) =
     [demo_booking\<lparr>b_status := ''cancelled'',
                   b_cancellation_reason := Some (closure_prefix @ ''repair'')\<rparr>]"
    using t c by simp
  have g: "get_zone (snd (close_zone demo_sweep_db 1 demo_closure)) 1 =
     Some (demo_zone\<lparr>z_is_active := False, z_closure_reason := Some ''repair'',
                       z_closed_until := Some 39600\<rparr>)"
    using t c by simp
  show ?thesis
    using r g b [rule_format, OF k(1)] b [rule_format, OF k(2)] h1 h2
      sl [rule_format, OF k(3)] sl [rule_format, OF k(4)] s0 s1
    by presburger
qed

section \<open>Extension\<close>

lemma next_id_greater: "i \<in> set ids \<Longrightarrow> i < next_id ids"
proof -
  assume i: "i \<in> set ids"
  have "fold max ids 0 = Max (set (0 # ids))" by (rule Max.set_eq_fold [symmetric])
  moreover have "i \<le> Max (set (0 # ids))" using i by (intro Max_ge) auto
  ultimately show ?thesis by (simp add: next_id_def)
qed

lemma find_append_Some: "find P xs = Some x \<Longrightarrow> find P (xs @ ys) = Some x"
  by (induction xs) (auto split: if_splits)

lemma get_booking_append:
  "get_booking d i = Some b \<Longrightarrow> bookings d' = bookings d @ bs \<Longrightarrow> get_booking d' i = Some b"
  unfolding get_booking_def by (simp add: find_append_Some)

lemma add_timedelta_Inr:
  "add_timedelta t hours minutes = Inr r \<Longrightarrow> r = t + (hours * 3600 + minutes * 60)"
  by (auto simp: add_timedelta_def Let_def split: if_splits)

lemma extend_on_slot_success:
  "extend_on_slot e d user_id slot z end_time new_end_time = (Inr nb, d') \<Longrightarrow>
     (\<exists>sid. nb = new_booking d user_id sid (Some z) end_time new_end_time) \<and>
     bookings d' = bookings d @ [nb] \<and> zones d' = zones d \<and> places d' = places d"
  unfolding extend_on_slot_def
  by (auto simp: Let_def split: sum.splits option.splits if_splits)

text \<open>
  C6. Extension never mutates the original: when \<^verbatim>\<open>extend_booking\<close> returns a booking,
  the original booking is found in the new store exactly as it was in the old one
  (it was active, owned by the caller, with a start and an end time), and the
  returned booking is a new row with another id, appended to the bookings table,
  active, starting at the original's end time and ending the requested duration
  later.
\<close>

theorem extend_never_mutates_original:
  "extend_booking e now d user_id booking_id extend_hours extend_minutes = (Inr nb, d') \<Longrightarrow>
     (\<exists>orig start_time end_time.
        get_booking d booking_id = Some orig \<and> get_booking d' booking_id = Some orig \<and>
        b_status orig = ''active'' \<and> b_user_id orig = user_id \<and>
        b_start_time orig = Some start_time \<and> b_end_time orig = Some end_time \<and>
        b_status nb = ''active'' \<and> b_user_id nb = user_id \<and>
        b_start_time nb = Some end_time \<and>
        b_end_time nb = Some (end_time + (extend_hours * 3600 + extend_minutes * 60)) \<and>
        b_id nb \<noteq> booking_id \<and> bookings d' = bookings d @ [nb])"
proof -
  assume a: "extend_booking e now d user_id booking_id extend_hours extend_minutes = (Inr nb, d')"
  from a obtain orig where o: "get_booking d booking_id = Some orig"
    by (cases "get_booking d booking_id") (auto simp: extend_booking_def)
  from a o obtain st en slot z where
    f: "b_status orig = ''active''" "b_user_id orig = user_id"
       "b_start_time orig = Some st" "b_end_time orig = Some en" and
    x: "extend_on_slot e d user_id slot z en (en + (extend_hours * 3600 + extend_minutes * 60))
          = (Inr nb, d')"
    by (auto simp: extend_booking_def Let_def dest!: add_timedelta_Inr
          split: option.splits if_splits sum.splits)
  from extend_on_slot_success [OF x] obtain sid where
    nb: "nb = new_booking d user_id sid (Some z) en
                (en + (extend_hours * 3600 + extend_minutes * 60))" and
    bs: "bookings d' = bookings d @ [nb]"
    by blast
  have "booking_id \<in> set (map b_id (bookings d))"
    using get_booking_mem [OF o] get_booking_id [OF o] by force
  then have "booking_id < b_id nb"
    unfolding nb new_booking_def using next_id_greater by simp
  moreover have "get_booking d' booking_id = Some orig"
    using o bs by (rule get_booking_append)
  ultimately show ?thesis
    using o f bs nb by (simp add: new_booking_def)
qed

text \<open>
  At 11:06 user 1 extends booking 1 (10:00 to 12:00) of the demo store by one hour.
\<close>

theorem extend_never_mutates_original_witness:
  "fst (extend_booking demo_env 40000 demo_db 1 1 1 0) = Inr demo_extension \<and>
   get_booking (snd (extend_booking demo_env 40000 demo_db 1 1 1 0)) 1 = Some demo_booking \<and>
   b_end_time demo_booking = Some 43200 \<and>
   b_start_time demo_extension = Some 43200 \<and>
   b_end_time demo_extension = Some (43200 + (1 * 3600 + 0 * 60)) \<and>
   bookings (snd (extend_booking demo_env 40000 demo_db 1 1 1 0)) =
     bookings demo_db @ [demo_extension]"
proof -
  have x: "extend_booking demo_env 40000 demo_db 1 1 1 0 =
           (Inr demo_extension, snd (extend_booking demo_env 40000 demo_db 1 1 1 0))"
    by code_simp
  have g: "get_booking demo_db 1 = Some demo_booking" by code_simp
  from extend_never_mutates_original [OF x] g
  have "get_booking (snd (extend_booking demo_env 40000 demo_db 1 1 1 0)) 1 = Some demo_booking \<and>
        (\<exists>end_time. b_end_time demo_booking = Some end_time \<and>
           b_start_time demo_extension = Some end_time \<and>
           b_end_time demo_extension = Some (end_time + (1 * 3600 + 0 * 60))) \<and>
        bookings (snd (extend_booking demo_env 40000 demo_db 1 1 1 0)) =
          bookings demo_db @ [demo_extension]"
    by auto
  moreover have "b_end_time demo_booking = Some 43200" by (simp add: demo_booking_def)
  moreover have "fst (extend_booking demo_env 40000 demo_db 1 1 1 0) = Inr demo_extension"
    using x by (metis fst_conv)
  ultimately show ?thesis by auto
qed

section \<open>Fixed-slot creation\<close>

lemma scalar_one_or_none_le1:
  "length xs \<le> 1 \<Longrightarrow>
     scalar_one_or_none xs = Inr (case xs of [] \<Rightarrow> None | x # _ \<Rightarrow> Some x)"
  by (cases xs rule: scalar_one_or_none.cases) auto

lemma get_slot_set_available:
  "get_slot (d\<lparr>slots := set_slot_available j v (slots d), bookings := bs\<rparr>) i =
     map_option (\<lambda>s. if s_id s = j then s\<lparr>s_is_available := v\<rparr> else s) (get_slot d i)"
  unfolding set_slot_available_def by (rule get_slot_map) simp_all




section \<open>Creation by time range\<close>

lemma distinct_map_filter_le1:
  "distinct (map f xs) \<Longrightarrow> length (filter (\<lambda>x. f x = k) xs) \<le> 1"
proof (induction xs)
  case Nil then show ?case by simp
next
  case (Cons x xs)
  have e: "f x = k \<Longrightarrow> filter (\<lambda>y. f y = k) xs = []"
  proof -
    assume k: "f x = k"
    from Cons.prems have "f x \<notin> f ` set xs" by simp
    with k have "\<forall>y \<in> set xs. f y \<noteq> k" by blast
    then show ?thesis by (simp add: filter_empty_conv)
  qed
  from Cons have "length (filter (\<lambda>y. f y = k) xs) \<le> 1" by simp
  with e show ?case by (cases "f x = k") simp_all
qed

lemma slots_unique_exact:
  assumes "slots_unique d"
  shows "length (filter (\<lambda>s. s_place_id s = Some pid \<and> s_start_time s = st \<and> s_end_time s = en)
                   (slots d)) \<le> 1"
proof -
  let ?key = "\<lambda>s. (s_place_id s, s_start_time s, s_end_time s)"
  have "filter (\<lambda>s. s_place_id s = Some pid \<and> s_start_time s = st \<and> s_end_time s = en) (slots d)
        = filter (\<lambda>s. ?key s = (Some pid, st, en)) (filter (\<lambda>s. s_place_id s \<noteq> None) (slots d))"
    by (auto intro: filter_cong)
  then show ?thesis
    using distinct_map_filter_le1 [OF assms [unfolded slots_unique_def], of "(Some pid, st, en)"]
    by simp
qed

lemma try_places_outcome:
  "slots_unique d \<Longrightarrow>
     (\<exists>b d'. try_places e d user_id z st en ps = (Inr b, d')) \<or>
     try_places e d user_id z st en ps = (Inl (BookingError ''NO_AVAILABLE_PLACES''), d)"
proof (induction ps)
  case Nil then show ?case by simp
next
  case (Cons p ps)
  have sc: "scalar_one_or_none
            (filter (\<lambda>s. s_place_id s = Some (p_id p) \<and> s_start_time s = st \<and>
                         s_end_time s = en) (slots d)) =
        Inr (case filter (\<lambda>s. s_place_id s = Some (p_id p) \<and> s_start_time s = st \<and>
                         s_end_time s = en) (slots d) of [] \<Rightarrow> None | x # _ \<Rightarrow> Some x)"
    using slots_unique_exact [OF Cons.prems] by (rule scalar_one_or_none_le1)
  show ?case
    using Cons.IH [OF Cons.prems]
    by (auto simp: sc Let_def split: list.splits)
qed

lemma combine_valid:
  "0 \<le> h \<Longrightarrow> h \<le> 23 \<Longrightarrow> 0 \<le> m \<Longrightarrow> m \<le> 59 \<Longrightarrow>
     combine day h m = Inr (day * 86400 + h * 3600 + m * 60)"
  by (simp add: combine_def)

lemma check_zone_capacity_no_places:
  "active_places d z = [] \<Longrightarrow> \<not> check_zone_capacity d z st en"
  by (simp add: check_zone_capacity_def max_capacity_def)

lemma scalar_one_or_none_exc:
  "scalar_one_or_none xs = Inl x \<Longrightarrow> x = MultipleResultsFound"
  by (cases xs rule: scalar_one_or_none.cases) auto

lemma try_places_codes:
  "fst (try_places e d user_id z st en ps) = Inl (BookingError code) \<Longrightarrow>
     code = ''NO_AVAILABLE_PLACES''"
  by (induction ps)
     (auto simp: Let_def dest: scalar_one_or_none_exc split: sum.splits option.splits if_splits)

text \<open>
  C4. The validation order of \<^verbatim>\<open>create_booking_by_time_range\<close>, for a request whose
  hours and minutes are clock values and a store with at most one slot per place
  and interval. When a check fails, the operation raises \<^verbatim>\<open>BookingError\<close> with the
  code of the first failing check, in the order: parseable date, end after start,
  duration within \<^verbatim>\<open>MAX_BOOKING_HOURS\<close>, zone exists and is active, no overlap with the
  user's own active bookings, capacity check, at least one active place; the store
  stays as it was. When no check fails it returns a booking or raises
  \<^verbatim>\<open>NO_AVAILABLE_PLACES\<close>. The place-existence check is never the first to fail: for
  a zone without active places the first failing check is an earlier one, at the
  latest the capacity check with \<^verbatim>\<open>ZONE_CAPACITY_EXCEEDED\<close>. Every code raised is one
  of the seven.
\<close>

theorem create_by_time_range_validation_order:
  assumes "valid_clock booking_in" and "slots_unique d"
  shows
  "(case first_failing_check e d user_id booking_in of
      Some code \<Rightarrow>
        create_booking_by_time_range e d user_id booking_in = (Inl (BookingError code), d)
    | None \<Rightarrow>
        (\<exists>b d'. create_booking_by_time_range e d user_id booking_in = (Inr b, d')) \<or>
        create_booking_by_time_range e d user_id booking_in =
          (Inl (BookingError ''NO_AVAILABLE_PLACES''), d)) \<and>
   first_failing_check e d user_id booking_in \<noteq> Some ''NO_AVAILABLE_PLACES'' \<and>
   (max_capacity d (r_zone_id booking_in) = 0 \<longrightarrow>
      first_failing_check e d user_id booking_in \<in>
        Some ` {''INVALID_DATE'', ''INVALID_TIME_RANGE'', ''TIME_LIMIT_EXCEEDED'',
                ''ZONE_INACTIVE'', ''USER_CONFLICT'', ''ZONE_CAPACITY_EXCEEDED''}) \<and>
   (\<forall>code. fst (create_booking_by_time_range e d user_id booking_in) =
              Inl (BookingError code) \<longrightarrow>
      code \<in> {''INVALID_DATE'', ''INVALID_TIME_RANGE'', ''TIME_LIMIT_EXCEEDED'',
               ''ZONE_INACTIVE'', ''USER_CONFLICT'', ''ZONE_CAPACITY_EXCEEDED'',
               ''NO_AVAILABLE_PLACES''})"
proof (intro conjI)
  note cv = combine_valid
  have c1: "\<And>day. combine day (r_start_hour booking_in) (r_start_minute booking_in) =
     Inr (day * 86400 + r_start_hour booking_in * 3600 + r_start_minute booking_in * 60)"
    and c2: "\<And>day. combine day (r_end_hour booking_in) (r_end_minute booking_in) =
     Inr (day * 86400 + r_end_hour booking_in * 3600 + r_end_minute booking_in * 60)"
    using assms(1) by (simp_all add: valid_clock_def combine_def)
  show "case first_failing_check e d user_id booking_in of
      Some code \<Rightarrow>
        create_booking_by_time_range e d user_id booking_in = (Inl (BookingError code), d)
    | None \<Rightarrow>
        (\<exists>b d'. create_booking_by_time_range e d user_id booking_in = (Inr b, d')) \<or>
        create_booking_by_time_range e d user_id booking_in =
          (Inl (BookingError ''NO_AVAILABLE_PLACES''), d)"
    using try_places_outcome [OF assms(2)]
    by (auto simp: first_failing_check_def requested_interval_def
          create_booking_by_time_range_def c1 c2 Let_def check_zone_capacity_no_places
          dest: get_zone_id split: option.splits)
  show "first_failing_check e d user_id booking_in \<noteq> Some ''NO_AVAILABLE_PLACES''"
    by (auto simp: first_failing_check_def check_zone_capacity_no_places
          split: option.splits if_splits)
  show "max_capacity d (r_zone_id booking_in) = 0 \<longrightarrow>
      first_failing_check e d user_id booking_in \<in>
        Some ` {''INVALID_DATE'', ''INVALID_TIME_RANGE'', ''TIME_LIMIT_EXCEEDED'',
                ''ZONE_INACTIVE'', ''USER_CONFLICT'', ''ZONE_CAPACITY_EXCEEDED''}"
    by (auto simp: first_failing_check_def check_zone_capacity_def
          split: option.splits if_splits)
  show "\<forall>code. fst (create_booking_by_time_range e d user_id booking_in) =
              Inl (BookingError code) \<longrightarrow>
      code \<in> {''INVALID_DATE'', ''INVALID_TIME_RANGE'', ''TIME_LIMIT_EXCEEDED'',
               ''ZONE_INACTIVE'', ''USER_CONFLICT'', ''ZONE_CAPACITY_EXCEEDED'',
               ''NO_AVAILABLE_PLACES''}"
    by (auto simp: create_booking_by_time_range_def Let_def combine_def
          dest!: try_places_codes split: option.splits sum.splits if_splits)
qed

text \<open>
  Requests against the demo store that fail at each check in turn; the last one
  but two asks for the hours of booking 1, the last but one for a zone whose only
  place is inactive, and the last one succeeds on slot 2.
\<close>

theorem create_by_time_range_validation_order_witness:
  "create_booking_by_time_range demo_env demo_db 2 (demo_request ''bad'' 1 10 12) =
     (Inl (BookingError ''INVALID_DATE''), demo_db) \<and>
   create_booking_by_time_range demo_env demo_db 2 (demo_request ''1970-01-01'' 1 12 10) =
     (Inl (BookingError ''INVALID_TIME_RANGE''), demo_db) \<and>
   create_booking_by_time_range demo_env demo_db 2 (demo_request ''1970-01-01'' 1 9 16) =
     (Inl (BookingError ''TIME_LIMIT_EXCEEDED''), demo_db) \<and>
   create_booking_by_time_range demo_env demo_db 2 (demo_request ''1970-01-01'' 5 12 14) =
     (Inl (BookingError ''ZONE_INACTIVE''), demo_db) \<and>
   create_booking_by_time_range demo_env demo_db 1 (demo_request ''1970-01-01'' 1 11 13) =
     (Inl (BookingError ''USER_CONFLICT''), demo_db) \<and>
   create_booking_by_time_range demo_env demo_db 2 (demo_request ''1970-01-01'' 1 10 12) =
     (Inl (BookingError ''ZONE_CAPACITY_EXCEEDED''), demo_db) \<and>
   create_booking_by_time_range demo_env demo_no_places 2 (demo_request ''1970-01-01'' 1 12 14) =
     (Inl (BookingError ''ZONE_CAPACITY_EXCEEDED''), demo_no_places) \<and>
   max_capacity demo_no_places 1 = 0 \<and>
   fst (create_booking_by_time_range demo_env demo_db 2 (demo_request ''1970-01-01'' 1 12 14)) =
     Inr demo_second"
proof -
  have su_demo_db: "slots_unique demo_db" by code_simp
  have su_demo_no_places: "slots_unique demo_no_places" by code_simp
  have v_bad: "valid_clock (demo_request ''bad'' 1 10 12)" by code_simp
  have f_bad: "first_failing_check demo_env demo_db 2 (demo_request ''bad'' 1 10 12) = Some ''INVALID_DATE''"
    by code_simp
  note r_bad = create_by_time_range_validation_order
    [OF v_bad su_demo_db, where e = demo_env and user_id = 2, THEN conjunct1,
     unfolded f_bad option.case]
  have v_rng: "valid_clock (demo_request ''1970-01-01'' 1 12 10)" by code_simp
  have f_rng: "first_failing_check demo_env demo_db 2 (demo_request ''1970-01-01'' 1 12 10) = Some ''INVALID_TIME_RANGE''"
    by code_simp
  note r_rng = create_by_time_range_validation_order
    [OF v_rng su_demo_db, where e = demo_env and user_id = 2, THEN conjunct1,
     unfolded f_rng option.case]
  have v_lim: "valid_clock (demo_request ''1970-01-01'' 1 9 16)" by code_simp
  have f_lim: "first_failing_check demo_env demo_db 2 (demo_request ''1970-01-01'' 1 9 16) = Some ''TIME_LIMIT_EXCEEDED''"
    by code_simp
  note r_lim = create_by_time_range_validation_order
    [OF v_lim su_demo_db, where e = demo_env and user_id = 2, THEN conjunct1,
     unfolded f_lim option.case]
  have v_zon: "valid_clock (demo_request ''1970-01-01'' 5 12 14)" by code_simp
  have f_zon: "first_failing_check demo_env demo_db 2 (demo_request ''1970-01-01'' 5 12 14) = Some ''ZONE_INACTIVE''"
    by code_simp
  note r_zon = create_by_time_range_validation_order
    [OF v_zon su_demo_db, where e = demo_env and user_id = 2, THEN conjunct1,
     unfolded f_zon option.case]
  have v_usr: "valid_clock (demo_request ''1970-01-01'' 1 11 13)" by code_simp
  have f_usr: "first_failing_check demo_env demo_db 1 (demo_request ''1970-01-01'' 1 11 13) = Some ''USER_CONFLICT''"
    by code_simp
  note r_usr = create_by_time_range_validation_order
    [OF v_usr su_demo_db, where e = demo_env and user_id = 1, THEN conjunct1,
     unfolded f_usr option.case]
  have v_cap: "valid_clock (demo_request ''1970-01-01'' 1 10 12)" by code_simp
  have f_cap: "first_failing_check demo_env demo_db 2 (demo_request ''1970-01-01'' 1 10 12) = Some ''ZONE_CAPACITY_EXCEEDED''"
    by code_simp
  note r_cap = create_by_time_range_validation_order
    [OF v_cap su_demo_db, where e = demo_env and user_id = 2, THEN conjunct1,
     unfolded f_cap option.case]
  have v_nop: "valid_clock (demo_request ''1970-01-01'' 1 12 14)" by code_simp
  have f_nop: "first_failing_check demo_env demo_no_places 2 (demo_request ''1970-01-01'' 1 12 14) = Some ''ZONE_CAPACITY_EXCEEDED''"
    by code_simp
  note r_nop = create_by_time_range_validation_order
    [OF v_nop su_demo_no_places, where e = demo_env and user_id = 2, THEN conjunct1,
     unfolded f_nop option.case]
  have m: "max_capacity demo_no_places 1 = 0" by code_simp
  have ok: "fst (create_booking_by_time_range demo_env demo_db 2
                  (demo_request ''1970-01-01'' 1 12 14)) = Inr demo_second"
    by code_simp
  show ?thesis
    using r_bad r_rng r_lim r_zon r_usr r_cap r_nop m ok by blast
qed

section \<open>The capacity invariant, one operation after the other\<close>

subsection \<open>One step preserves the store constraints and the invariant\<close>

lemma find_list_all2:
  "list_all2 R xs ys \<Longrightarrow> (\<And>x y. R x y \<Longrightarrow> key y = key x) \<Longrightarrow>
     rel_option R (find (\<lambda>x. key x = k) xs) (find (\<lambda>y. key y = k) ys)"
  by (induction rule: list_all2_induct) auto

lemma length_filter_list_all2:
  "list_all2 R xs ys \<Longrightarrow> (\<And>x y. x \<in> set xs \<Longrightarrow> R x y \<Longrightarrow> Q y \<Longrightarrow> P x) \<Longrightarrow>
     length (filter Q ys) \<le> length (filter P xs)"
  by (induction rule: list_all2_induct) auto

lemma step_rel_get_slot:
  assumes "step_rel d d'" "get_slot d i = Some s"
  shows "\<exists>s'. get_slot d' i = Some s' \<and> same_slot s s'"
proof -
  from assms(1) obtain ss extra where
    sl: "slots d' = ss @ extra" and r: "list_all2 same_slot (slots d) ss"
    unfolding step_rel_def by blast
  have "rel_option same_slot (find (\<lambda>x. s_id x = i) (slots d)) (find (\<lambda>y. s_id y = i) ss)"
    using r by (rule find_list_all2) (simp add: same_slot_def)
  with assms(2) obtain s' where "find (\<lambda>y. s_id y = i) ss = Some s'" "same_slot s s'"
    unfolding get_slot_def by (auto simp: option_rel_Some1)
  then show ?thesis
    unfolding get_slot_def sl by (auto simp: find_append_Some)
qed

lemma step_rel_slot_zone:
  "step_rel d d' \<Longrightarrow> same_slot s s' \<Longrightarrow> slot_zone_id d' s' = slot_zone_id d s"
  by (auto simp: step_rel_def same_slot_def slot_zone_id_def get_place_def
        split: option.splits)

lemma step_rel_booking_zone:
  assumes st: "step_rel d d'" and wf: "wf_store d"
    and b: "b \<in> set (bookings d)" and r: "relaxed b b'"
  shows "booking_zone_id d' b' = booking_zone_id d b"
proof (cases "b_slot_id b")
  case None
  then show ?thesis using r by (simp add: booking_zone_id_def booking_slot_def relaxed_def)
next
  case (Some i)
  with wf b obtain s where s: "get_slot d i = Some s"
    unfolding wf_store_def by force
  from step_rel_get_slot [OF st s] obtain s' where
    s': "get_slot d' i = Some s'" "same_slot s s'" by blast
  show ?thesis
    using Some r s s' step_rel_slot_zone [OF st s'(2)]
    by (simp add: booking_zone_id_def booking_slot_def relaxed_def)
qed

lemma step_rel_max_capacity: "step_rel d d' \<Longrightarrow> max_capacity d' z = max_capacity d z"
  by (simp add: step_rel_def max_capacity_def active_places_def)

lemma step_rel_capacity_inv:
  assumes st: "step_rel d d'" and wf: "wf_store d" and inv: "capacity_inv d"
  shows "capacity_inv d'"
  unfolding capacity_inv_def
proof (intro allI)
  fix z t
  from st obtain bs extra where
    bk: "bookings d' = bs @ extra" and r: "list_all2 relaxed (bookings d) bs" and
    le: "length extra \<le> 1" and ad: "\<forall>nb \<in> set extra. admitted d d' nb"
    unfolding step_rel_def by blast
  let ?P' = "\<lambda>b. b_status b = ''active'' \<and> booking_zone_id d' b = Some z \<and> contains_time b t"
  let ?P = "\<lambda>b. b_status b = ''active'' \<and> booking_zone_id d b = Some z \<and> contains_time b t"
  have old: "length (filter ?P' bs) \<le> occupancy d z t"
    unfolding occupancy_def using r
  proof (rule length_filter_list_all2)
    fix x y assume x: "x \<in> set (bookings d)" and xy: "relaxed x y" and y: "?P' y"
    have "booking_zone_id d' y = booking_zone_id d x"
      using st wf x xy by (rule step_rel_booking_zone)
    with xy y show "?P x"
      by (auto simp: relaxed_def contains_time_def split: option.splits)
  qed
  have occ: "occupancy d' z t = length (filter ?P' bs) + length (filter ?P' extra)"
    by (simp add: occupancy_def bk)
  have cap: "max_capacity d' z = max_capacity d z" using st by (rule step_rel_max_capacity)
  show "occupancy d' z t \<le> max_capacity d' z"
  proof (cases "filter ?P' extra = []")
    case True
    with occ old inv cap show ?thesis
      using inv [unfolded capacity_inv_def, rule_format, of z t] by simp
  next
    case False
    then obtain nb where nb: "nb \<in> set extra" "?P' nb"
      by (auto simp: filter_empty_conv)
    have l1: "length (filter ?P' extra) \<le> 1"
      using le length_filter_le [of ?P' extra] by linarith
    from nb(2) obtain s en where se: "b_start_time nb = Some s" "b_end_time nb = Some en"
      "s \<le> t" "t < en"
      by (auto simp: contains_time_def split: option.splits)
    from ad nb(1) have "admitted d d' nb" by blast
    with nb(2) se have "check_zone_capacity d z s en"
      by (simp add: admitted_def)
    then have "covering d z s en t + 1 \<le> max_capacity d z"
      using se(3,4) unfolding check_zone_capacity_all_instants by blast
    then have "occupancy d z t + 1 \<le> max_capacity d z"
      using covering_occupancy [OF se(3,4)] by simp
    with occ old l1 cap show ?thesis by linarith
  qed
qed

lemma step_rel_wf_store:
  assumes st: "step_rel d d'" and wf: "wf_store d"
  shows "wf_store d'"
proof -
  from st obtain ss extra where
    sl: "slots d' = ss @ extra" and rs: "list_all2 same_slot (slots d) ss" and
    dx: "distinct (map s_id extra)" and
    fr: "set (map s_id extra) \<inter> set (map s_id (slots d)) = {}"
    unfolding step_rel_def by blast
  from st obtain bs extrab where
    bk: "bookings d' = bs @ extrab" and rb: "list_all2 relaxed (bookings d) bs" and
    ad: "\<forall>nb \<in> set extrab. admitted d d' nb"
    unfolding step_rel_def by blast
  from st have pl: "places d' = places d" and zn: "list_all2 same_zone (zones d) (zones d')"
    unfolding step_rel_def by blast+
  have ids: "map s_id ss = map s_id (slots d)"
    using rs by (induction rule: list_all2_induct) (auto simp: same_slot_def)
  have d1: "distinct (map s_id (slots d'))"
    using wf dx fr by (auto simp: sl ids wf_store_def)
  have gz: "\<And>z. get_zone d z \<noteq> None \<Longrightarrow> get_zone d' z \<noteq> None"
  proof -
    fix z assume "get_zone d z \<noteq> None"
    moreover have "rel_option same_zone (find (\<lambda>x. z_id x = z) (zones d))
                     (find (\<lambda>y. z_id y = z) (zones d'))"
      using zn by (rule find_list_all2) (simp add: same_zone_def)
    ultimately show "get_zone d' z \<noteq> None"
      unfolding get_zone_def by (auto simp: option_rel_Some1)
  qed
  have d2: "\<forall>p \<in> set (places d').
         p_id p \<noteq> 0 \<and>
         (case p_zone_id p of None \<Rightarrow> True | Some z \<Rightarrow> z \<noteq> 0 \<and> get_zone d' z \<noteq> None)"
    using wf gz unfolding wf_store_def pl by (auto split: option.splits)
  have d3: "\<forall>b \<in> set (bookings d').
         case b_slot_id b of None \<Rightarrow> True | Some i \<Rightarrow> get_slot d' i \<noteq> None"
  proof
    fix b' assume "b' \<in> set (bookings d')"
    then consider "b' \<in> set bs" | "b' \<in> set extrab" unfolding bk by auto
    then show "case b_slot_id b' of None \<Rightarrow> True | Some i \<Rightarrow> get_slot d' i \<noteq> None"
    proof cases
      case 1
      then obtain k where k: "k < length bs" "b' = bs ! k"
        by (auto simp: in_set_conv_nth)
      from rb have len: "length (bookings d) = length bs"
        and nth: "\<forall>i < length bs. relaxed (bookings d ! i) (bs ! i)"
        by (auto simp: list_all2_conv_all_nth)
      define b where "b = bookings d ! k"
      have b: "b \<in> set (bookings d)" "relaxed b b'"
        using k len nth by (auto simp: b_def)
      show ?thesis
      proof (cases "b_slot_id b'")
        case None then show ?thesis by simp
      next
        case (Some i)
        with b have "b_slot_id b = Some i" by (simp add: relaxed_def)
        with wf b(1) obtain s where "get_slot d i = Some s"
          unfolding wf_store_def by force
        from step_rel_get_slot [OF st this] show ?thesis using Some by auto
      qed
    next
      case 2
      with ad have "admitted d d' b'" by blast
      then show ?thesis by (auto simp: admitted_def split: option.splits)
    qed
  qed
  show ?thesis
    unfolding wf_store_def using wf d1 d2 d3 by (simp add: pl wf_store_def)
qed

subsection \<open>Every operation is a step\<close>

lemma list_all2_map_self: "(\<And>x. R x (f x)) \<Longrightarrow> list_all2 R xs (map f xs)"
  by (induction xs) auto

lemma list_all2_self: "(\<And>x. R x x) \<Longrightarrow> list_all2 R xs xs"
  by (induction xs) auto

lemma step_rel_update:
  assumes "places d' = places d"
    and "zones d' = map h (zones d)" "\<And>z. same_zone z (h z)"
    and "slots d' = map g (slots d)" "\<And>s. same_slot s (g s)"
    and "bookings d' = map f (bookings d)" "\<And>b. relaxed b (f b)"
  shows "step_rel d d'"
  unfolding step_rel_def
proof (intro conjI)
  show "places d' = places d" by fact
  show "list_all2 same_zone (zones d) (zones d')"
    unfolding assms(2) by (rule list_all2_map_self) (rule assms(3))
  have "slots d' = map g (slots d) @ [] \<and> list_all2 same_slot (slots d) (map g (slots d)) \<and>
        distinct (map s_id ([]::slot list)) \<and>
        set (map s_id ([]::slot list)) \<inter> set (map s_id (slots d)) = {}"
    using assms(4) list_all2_map_self [of same_slot g, OF assms(5)] by simp
  then show "\<exists>ss extra. slots d' = ss @ extra \<and> list_all2 same_slot (slots d) ss \<and>
         distinct (map s_id extra) \<and>
         set (map s_id extra) \<inter> set (map s_id (slots d)) = {}" by blast
  have "bookings d' = map f (bookings d) @ [] \<and>
        list_all2 relaxed (bookings d) (map f (bookings d)) \<and>
        length ([]::booking list) \<le> 1 \<and> (\<forall>nb \<in> set ([]::booking list). admitted d d' nb)"
    using assms(6) list_all2_map_self [of relaxed f, OF assms(7)] by simp
  then show "\<exists>bs extra. bookings d' = bs @ extra \<and> list_all2 relaxed (bookings d) bs \<and>
         length extra \<le> 1 \<and> (\<forall>nb \<in> set extra. admitted d d' nb)" by blast
qed

lemma same_zone_refl: "same_zone z z" by (simp add: same_zone_def)
lemma same_slot_refl: "same_slot s s" by (simp add: same_slot_def)
lemma relaxed_refl: "relaxed b b" by (simp add: relaxed_def)

lemma step_rel_refl: "step_rel d d"
  by (rule step_rel_update [where h = "\<lambda>z. z" and g = "\<lambda>s. s" and f = "\<lambda>b. b"])
     (simp_all add: same_zone_refl same_slot_refl relaxed_refl)

lemma step_rel_book:
  assumes "places d' = places d" and "zones d' = zones d"
    and "slots d' = map g (slots d) @ extra" "\<And>s. same_slot s (g s)"
    and "distinct (map s_id extra)"
    and "set (map s_id extra) \<inter> set (map s_id (slots d)) = {}"
    and "bookings d' = bookings d @ [nb]" and "admitted d d' nb"
  shows "step_rel d d'"
  unfolding step_rel_def
proof (intro conjI)
  show "places d' = places d" by fact
  show "list_all2 same_zone (zones d) (zones d')"
    unfolding assms(2) by (rule list_all2_self) (rule same_zone_refl)
  have "slots d' = map g (slots d) @ extra \<and> list_all2 same_slot (slots d) (map g (slots d)) \<and>
        distinct (map s_id extra) \<and> set (map s_id extra) \<inter> set (map s_id (slots d)) = {}"
    using assms(3,5,6) list_all2_map_self [of same_slot g, OF assms(4)] by simp
  then show "\<exists>ss extra. slots d' = ss @ extra \<and> list_all2 same_slot (slots d) ss \<and>
         distinct (map s_id extra) \<and>
         set (map s_id extra) \<inter> set (map s_id (slots d)) = {}" by blast
  have "bookings d' = bookings d @ [nb] \<and> list_all2 relaxed (bookings d) (bookings d) \<and>
        length [nb] \<le> 1 \<and> (\<forall>x \<in> set [nb]. admitted d d' x)"
    using assms(7,8) list_all2_self [of relaxed, OF relaxed_refl] by simp
  then show "\<exists>bs extra. bookings d' = bs @ extra \<and> list_all2 relaxed (bookings d) bs \<and>
         length extra \<le> 1 \<and> (\<forall>nb \<in> set extra. admitted d d' nb)" by blast
qed

lemma slot_zone_id_cong:
  "places d' = places d \<Longrightarrow> s_place_id s' = s_place_id s \<Longrightarrow>
     slot_zone_id d' s' = slot_zone_id d s"
  by (auto simp: slot_zone_id_def get_place_def split: option.splits)

lemma admitted_intro:
  assumes "b_slot_id nb = Some i" "get_slot d' i = Some s'"
    and "b_start_time nb = Some st" "b_end_time nb = Some en"
    and "\<And>z. slot_zone_id d' s' = Some z \<Longrightarrow> check_zone_capacity d z st en"
  shows "admitted d d' nb"
  using assms by (auto simp: admitted_def booking_zone_id_def booking_slot_def split: option.splits)

lemma find_distinct_key:
  "distinct (map key xs) \<Longrightarrow> x \<in> set xs \<Longrightarrow> find (\<lambda>y. key y = key x) xs = Some x"
  by (induction xs) (auto simp: rev_image_eqI)

lemma find_append_None: "find P xs = None \<Longrightarrow> find P (xs @ ys) = find P ys"
  by (induction xs) (auto split: if_splits)

lemma load_zone_wf:
  assumes "wf_store d" "slot_zone_id d slot = Some z"
  shows "\<exists>zn. load_zone d slot = Some zn \<and> z_id zn = z"
proof -
  from assms(2) obtain pid p where
    p: "s_place_id slot = Some pid" "get_place d pid = Some p" "p_zone_id p = Some z"
    by (auto simp: slot_zone_id_def split: option.splits)
  from p(2) have pm: "p \<in> set (places d)" "p_id p = pid"
    unfolding get_place_def by (auto dest: find_Some_P)
  with assms(1) p(3) have nz: "pid \<noteq> 0" "z \<noteq> 0" and gz: "get_zone d z \<noteq> None"
    unfolding wf_store_def by (auto split: option.splits)
  from gz obtain zn where zn: "get_zone d z = Some zn" by auto
  then have "z_id zn = z" by (rule get_zone_id)
  with p nz zn show ?thesis by (simp add: load_zone_def if_ref_def)
qed

lemma create_booking_shape:
  "snd (create_booking e d user_id slot_id) = d \<or>
   (\<exists>slot. get_slot d slot_id = Some slot \<and>
      snd (create_booking e d user_id slot_id) =
        d\<lparr>slots := set_slot_available (s_id slot) False (slots d),
          bookings := bookings d @
            [new_booking d user_id (s_id slot) (load_zone d slot)
               (s_start_time slot) (s_end_time slot)]\<rparr> \<and>
      (\<forall>zn. load_zone d slot = Some zn \<longrightarrow>
         check_zone_capacity d (z_id zn) (s_start_time slot) (s_end_time slot)))"
  by (auto simp: create_booking_def Let_def split: option.splits sum.splits)

lemma create_booking_step:
  assumes wf: "wf_store d"
  shows "step_rel d (snd (create_booking e d user_id slot_id))"
proof -
  from create_booking_shape [of e d user_id slot_id]
  show ?thesis
  proof (elim disjE exE conjE)
    assume "snd (create_booking e d user_id slot_id) = d"
    then show ?thesis by (simp add: step_rel_refl)
  next
    fix slot
    let ?nb = "new_booking d user_id (s_id slot) (load_zone d slot)
               (s_start_time slot) (s_end_time slot)"
    let ?g = "\<lambda>s. if s_id s = s_id slot then s\<lparr>s_is_available := False\<rparr> else s"
    let ?d' = "d\<lparr>slots := set_slot_available (s_id slot) False (slots d),
          bookings := bookings d @ [?nb]\<rparr>"
    assume s: "get_slot d slot_id = Some slot"
      and r: "snd (create_booking e d user_id slot_id) = ?d'"
      and c: "\<forall>zn. load_zone d slot = Some zn \<longrightarrow>
         check_zone_capacity d (z_id zn) (s_start_time slot) (s_end_time slot)"
    have id: "s_id slot = slot_id" using s by (rule get_slot_id)
    have gs: "get_slot ?d' (s_id slot) = Some (slot\<lparr>s_is_available := False\<rparr>)"
      using s id by (simp add: get_slot_set_available)
    have ad: "admitted d ?d' ?nb"
    proof (rule admitted_intro [OF _ gs])
      show "b_slot_id ?nb = Some (s_id slot)" by (simp add: new_booking_def)
      show "b_start_time ?nb = Some (s_start_time slot)" by (simp add: new_booking_def)
      show "b_end_time ?nb = Some (s_end_time slot)" by (simp add: new_booking_def)
      fix z assume "slot_zone_id ?d' (slot\<lparr>s_is_available := False\<rparr>) = Some z"
      moreover have "slot_zone_id ?d' (slot\<lparr>s_is_available := False\<rparr>) = slot_zone_id d slot"
        by (rule slot_zone_id_cong) simp_all
      ultimately have "slot_zone_id d slot = Some z" by simp
      from load_zone_wf [OF wf this] c
      show "check_zone_capacity d z (s_start_time slot) (s_end_time slot)" by auto
    qed
    have "step_rel d ?d'"
    proof (rule step_rel_book [where g = ?g and extra = "[]" and nb = ?nb])
      show "admitted d ?d' ?nb" by (rule ad)
    qed (simp_all add: set_slot_available_def same_slot_def)
    with r show ?thesis by simp
  qed
qed

lemma cancel_booking_step: "step_rel d (snd (cancel_booking d user_id booking_id is_admin))"
proof (cases "get_booking d booking_id")
  case None
  then show ?thesis by (simp add: cancel_booking_def step_rel_refl)
next
  case (Some booking)
  show ?thesis
  proof (cases "(\<not> is_admin \<and> b_user_id booking \<noteq> user_id) \<or> b_status booking \<noteq> ''active''")
    case True
    with Some show ?thesis by (auto simp: cancel_booking_def step_rel_refl)
  next
    case False
    let ?f = "\<lambda>b. if b_id b = b_id booking then b\<lparr>b_status := ''cancelled''\<rparr> else b"
    obtain g where g: "snd (cancel_booking d user_id booking_id is_admin) =
         d\<lparr>slots := map g (slots d), bookings := map ?f (bookings d)\<rparr>"
       and gs: "\<And>s. same_slot s (g s)"
    proof (cases "if_ref (b_slot_id booking) (get_slot d)")
      case None
      show ?thesis
        by (rule that [of "\<lambda>s. s"])
           (use Some False None in \<open>auto simp: cancel_booking_def Let_def
              set_booking_status_def same_slot_def\<close>)
    next
      case (Some slot)
      show ?thesis
        by (rule that [of "\<lambda>s. if s_id s = s_id slot then s\<lparr>s_is_available := True\<rparr> else s"])
           (use \<open>get_booking d booking_id = Some booking\<close> False Some in
             \<open>auto simp: cancel_booking_def Let_def set_booking_status_def
                set_slot_available_def same_slot_def\<close>)
    qed
    show ?thesis
      unfolding g
      by (rule step_rel_update [where h = "\<lambda>z. z" and g = g and f = ?f])
         (simp_all add: same_zone_refl gs relaxed_def)
  qed
qed

lemma auto_complete_step: "step_rel d (auto_complete_expired_bookings now d booking)"
proof -
  obtain f where f: "auto_complete_expired_bookings now d booking =
        d\<lparr>bookings := map f (bookings d)\<rparr>" and r: "\<And>b. relaxed b (f b)"
  proof (cases booking)
    case None
    show ?thesis
      by (rule that [of "\<lambda>b. if b_status b = ''active'' \<and> sql_le (b_end_time b) now
                        then b\<lparr>b_status := ''completed''\<rparr> else b"])
         (use None in \<open>auto simp: auto_complete_expired_bookings_def relaxed_def\<close>)
  next
    case (Some b)
    show ?thesis
    proof (cases "b_status b = ''active'' \<and> (\<exists>en. b_end_time b = Some en \<and> en \<le> now)")
      case True
      show ?thesis
        by (rule that [of "\<lambda>x. if b_id x = b_id b then x\<lparr>b_status := ''completed''\<rparr> else x"])
           (use Some True in \<open>auto simp: auto_complete_expired_bookings_def relaxed_def
              set_booking_status_def\<close>)
    next
      case False
      show ?thesis
        by (rule that [of "\<lambda>x. x"])
           (use Some False in \<open>auto simp: auto_complete_expired_bookings_def relaxed_def
              split: option.splits\<close>)
    qed
  qed
  show ?thesis
    unfolding f
    by (rule step_rel_update [where h = "\<lambda>z. z" and g = "\<lambda>s. s" and f = f])
       (simp_all add: same_zone_refl same_slot_refl r)
qed

lemma close_zone_step: "step_rel d (snd (close_zone d zone_id data))"
proof (cases "get_zone d zone_id")
  case None
  then show ?thesis by (simp add: close_zone_def step_rel_refl)
next
  case (Some z)
  let ?h = "\<lambda>z'. if z_id z' = zone_id
                              then z'\<lparr>z_is_active := False,
                                      z_closure_reason := Some (c_reason data),
                                      z_closed_until := Some (c_to_time data)\<rparr>
                              else z'"
  let ?g = "\<lambda>s. if \<exists>b \<in> set (filter (affected_by_closure d zone_id data) (bookings d)).
                      b_slot_id b = Some (s_id s)
                             then s\<lparr>s_is_available := True\<rparr> else s"
  let ?f = "\<lambda>b. if affected_by_closure d zone_id data b
                             then cancel_for_closure data b else b"
  have r: "snd (close_zone d zone_id data) =
     d\<lparr>zones := map ?h (zones d), slots := map ?g (slots d), bookings := map ?f (bookings d)\<rparr>"
    using Some by (simp add: close_zone_def Let_def)
  show ?thesis
    unfolding r
    by (rule step_rel_update [where h = ?h and g = ?g and f = ?f])
       (simp_all add: same_zone_def same_slot_def relaxed_def cancel_for_closure_def)
qed

lemma scalar_one_or_none_Some:
  "scalar_one_or_none xs = Inr (Some x) \<Longrightarrow> x \<in> set xs"
  by (cases xs rule: scalar_one_or_none.cases) auto

lemma wf_get_slot:
  "wf_store d \<Longrightarrow> s \<in> set (slots d) \<Longrightarrow> get_slot d (s_id s) = Some s"
  unfolding wf_store_def get_slot_def by (simp add: find_distinct_key)

lemma wf_place_zone:
  assumes "wf_store d" "p \<in> set (places d)" "s_place_id s = Some (p_id p)"
  shows "slot_zone_id d s = p_zone_id p"
proof -
  have "get_place d (p_id p) = Some p"
    using assms(1,2) unfolding wf_store_def get_place_def by (simp add: find_distinct_key)
  with assms(3) show ?thesis by (simp add: slot_zone_id_def)
qed

lemma get_slot_fresh:
  assumes "slots d' = slots d @ [ns]" "s_id ns = next_id (map s_id (slots d))"
  shows "get_slot d' (s_id ns) = Some ns"
proof -
  have "\<forall>s \<in> set (slots d). s_id s \<noteq> s_id ns"
    using next_id_greater [of _ "map s_id (slots d)"] assms(2) by fastforce
  then have "find (\<lambda>s. s_id s = s_id ns) (slots d) = None"
    by (simp add: find_None_iff)
  then show ?thesis
    unfolding get_slot_def assms(1) by (simp add: find_append_None)
qed

lemma next_id_fresh: "next_id (map s_id ss) \<notin> set (map s_id ss)"
  using next_id_greater [of "next_id (map s_id ss)" "map s_id ss"] by blast

text \<open>Booking an existing available slot that lies in the checked zone.\<close>

lemma book_existing_slot_step:
  assumes wf: "wf_store d" and x: "x \<in> set (slots d)"
    and z: "slot_zone_id d x = Some z0" and cz: "check_zone_capacity d z0 st en"
  shows "step_rel d (d\<lparr>slots := set_slot_available (s_id x) False (slots d),
                      bookings := bookings d @ [new_booking d user_id (s_id x) zo st en]\<rparr>)"
    (is "step_rel d ?d'")
proof -
  let ?nb = "new_booking d user_id (s_id x) zo st en"
  let ?g = "\<lambda>s. if s_id s = s_id x then s\<lparr>s_is_available := False\<rparr> else s"
  have gs: "get_slot ?d' (s_id x) = Some (x\<lparr>s_is_available := False\<rparr>)"
    using wf_get_slot [OF wf x] by (simp add: get_slot_set_available)
  have ad: "admitted d ?d' ?nb"
  proof (rule admitted_intro [OF _ gs])
    show "b_slot_id ?nb = Some (s_id x)" "b_start_time ?nb = Some st" "b_end_time ?nb = Some en"
      by (simp_all add: new_booking_def)
    fix z assume "slot_zone_id ?d' (x\<lparr>s_is_available := False\<rparr>) = Some z"
    moreover have "slot_zone_id ?d' (x\<lparr>s_is_available := False\<rparr>) = slot_zone_id d x"
      by (rule slot_zone_id_cong) simp_all
    ultimately show "check_zone_capacity d z st en" using z cz by simp
  qed
  show ?thesis
  proof (rule step_rel_book [where g = ?g and extra = "[]" and nb = ?nb])
    show "admitted d ?d' ?nb" by (rule ad)
  qed (simp_all add: set_slot_available_def same_slot_def)
qed

text \<open>Booking a new slot on a place of the checked zone.\<close>

lemma book_new_slot_step:
  assumes z: "slot_zone_id d (new_slot d pid st en) = Some z0"
    and cz: "check_zone_capacity d z0 st en"
  shows "step_rel d (d\<lparr>slots := slots d @ [new_slot d pid st en],
             bookings := bookings d @
               [new_booking d user_id (s_id (new_slot d pid st en)) zo st en]\<rparr>)"
    (is "step_rel d ?d'")
proof -
  let ?ns = "new_slot d pid st en"
  let ?nb = "new_booking d user_id (s_id ?ns) zo st en"
  have gs: "get_slot ?d' (s_id ?ns) = Some ?ns"
    by (rule get_slot_fresh) (simp_all add: new_slot_def)
  have ad: "admitted d ?d' ?nb"
  proof (rule admitted_intro [OF _ gs])
    show "b_slot_id ?nb = Some (s_id ?ns)" "b_start_time ?nb = Some st" "b_end_time ?nb = Some en"
      by (simp_all add: new_booking_def)
    fix z' assume "slot_zone_id ?d' ?ns = Some z'"
    moreover have "slot_zone_id ?d' ?ns = slot_zone_id d ?ns"
      by (rule slot_zone_id_cong) simp_all
    ultimately show "check_zone_capacity d z' st en" using z cz by simp
  qed
  show ?thesis
  proof (rule step_rel_book [where g = "\<lambda>s. s" and extra = "[?ns]" and nb = ?nb])
    show "admitted d ?d' ?nb" by (rule ad)
    show "set (map s_id [?ns]) \<inter> set (map s_id (slots d)) = {}"
      using next_id_fresh [of "slots d"] by (simp add: new_slot_def)
  qed (simp_all add: same_slot_refl)
qed

lemma try_places_step:
  assumes wf: "wf_store d" and cz: "check_zone_capacity d z0 st en"
  shows "\<forall>p \<in> set ps. p \<in> set (places d) \<and> p_zone_id p = Some z0 \<Longrightarrow>
           step_rel d (snd (try_places e d user_id zn st en ps))"
proof (induction ps)
  case Nil
  then show ?case by (simp add: step_rel_refl)
next
  case (Cons p ps)
  then have p: "p \<in> set (places d)" "p_zone_id p = Some z0"
    and ih: "step_rel d (snd (try_places e d user_id zn st en ps))" by simp_all
  let ?q = "scalar_one_or_none
            (filter (\<lambda>s. s_place_id s = Some (p_id p) \<and> s_start_time s = st \<and>
                         s_end_time s = en) (slots d))"
  show ?case
  proof (cases ?q)
    case (Inl x)
    then show ?thesis by (simp add: step_rel_refl)
  next
    case (Inr o1)
    show ?thesis
    proof (cases o1)
      case (Some x)
      with Inr have "?q = Inr (Some x)" by simp
      then have "x \<in> set (filter (\<lambda>s. s_place_id s = Some (p_id p) \<and> s_start_time s = st \<and>
                         s_end_time s = en) (slots d))"
        by (rule scalar_one_or_none_Some)
      then have x: "x \<in> set (slots d)" "s_place_id x = Some (p_id p)" by simp_all
      have zx: "slot_zone_id d x = Some z0"
        using wf_place_zone [OF wf p(1) x(2)] p(2) by simp
      note bk = book_existing_slot_step [OF wf x(1) zx cz, of user_id "Some zn"]
      show ?thesis
        using Inr Some ih bk by (simp add: Let_def step_rel_refl)
    next
      case None
      have zs: "slot_zone_id d (new_slot d (Some (p_id p)) st en) = Some z0"
        using wf_place_zone [OF wf p(1), of "new_slot d (Some (p_id p)) st en"] p(2)
        by (simp add: new_slot_def)
      note bk = book_new_slot_step [OF zs cz, of user_id "Some zn"]
      show ?thesis
        using Inr None ih bk by (simp add: Let_def step_rel_refl)
    qed
  qed
qed

lemma create_by_time_range_step:
  assumes wf: "wf_store d"
  shows "step_rel d (snd (create_booking_by_time_range e d user_id booking_in))"
proof -
  have "snd (create_booking_by_time_range e d user_id booking_in) = d \<or>
        (\<exists>z st en. check_zone_capacity d (z_id z) st en \<and>
           snd (create_booking_by_time_range e d user_id booking_in) =
             snd (try_places e d user_id z st en (active_places d (z_id z))))"
    by (auto simp: create_booking_by_time_range_def Let_def split: option.splits sum.splits)
  then show ?thesis
  proof (elim disjE exE conjE)
    assume "snd (create_booking_by_time_range e d user_id booking_in) = d"
    then show ?thesis by (simp add: step_rel_refl)
  next
    fix z st en
    assume cz: "check_zone_capacity d (z_id z) st en"
      and r: "snd (create_booking_by_time_range e d user_id booking_in) =
             snd (try_places e d user_id z st en (active_places d (z_id z)))"
    have "\<forall>p \<in> set (active_places d (z_id z)). p \<in> set (places d) \<and> p_zone_id p = Some (z_id z)"
      by (simp add: active_places_def)
    from try_places_step [OF wf cz this] r show ?thesis by simp
  qed
qed

lemma extend_on_slot_step:
  assumes wf: "wf_store d" and sz: "slot_zone_id d slot = Some z0"
    and cz: "check_zone_capacity d z0 et ne"
  shows "step_rel d (snd (extend_on_slot e d user_id slot zn et ne))"
proof -
  let ?q = "scalar_one_or_none
            (filter (\<lambda>s. s_place_id s \<noteq> None \<and> s_place_id s = s_place_id slot \<and>
                         s_start_time s = et \<and> s_end_time s = ne) (slots d))"
  show ?thesis
  proof (cases ?q)
    case (Inl x)
    then show ?thesis by (simp add: extend_on_slot_def step_rel_refl)
  next
    case (Inr o1)
    show ?thesis
    proof (cases o1)
      case (Some x)
      with Inr have "?q = Inr (Some x)" by simp
      then have "x \<in> set (filter (\<lambda>s. s_place_id s \<noteq> None \<and> s_place_id s = s_place_id slot \<and>
                         s_start_time s = et \<and> s_end_time s = ne) (slots d))"
        by (rule scalar_one_or_none_Some)
      then have x: "x \<in> set (slots d)" "s_place_id x = s_place_id slot" by simp_all
      have zx: "slot_zone_id d x = Some z0"
        using sz x(2) by (simp add: slot_zone_id_def)
      note bk = book_existing_slot_step [OF wf x(1) zx cz, of user_id "Some zn"]
      show ?thesis
        using Inr Some bk by (simp add: extend_on_slot_def Let_def step_rel_refl)
    next
      case None
      have zs: "slot_zone_id d (new_slot d (s_place_id slot) et ne) = Some z0"
        using sz by (simp add: slot_zone_id_def new_slot_def)
      note bk = book_new_slot_step [OF zs cz, of user_id "Some zn"]
      show ?thesis
        using Inr None bk by (simp add: extend_on_slot_def Let_def step_rel_refl)
    qed
  qed
qed

lemma extend_on_slot_step_zone:
  assumes wf: "wf_store d" and "s_place_id slot = Some pid" "get_place d pid = Some place"
    "p_zone_id place = Some zi" "get_zone d zi = Some zn"
    and cz: "check_zone_capacity d (z_id zn) et ne"
  shows "step_rel d (snd (extend_on_slot e d user_id slot zn et ne))"
proof -
  have "z_id zn = zi" using assms(5) by (rule get_zone_id)
  moreover have "slot_zone_id d slot = Some zi"
    using assms(2-4) by (simp add: slot_zone_id_def)
  ultimately show ?thesis using extend_on_slot_step [OF wf _ cz] by simp
qed

lemma extend_booking_step:
  assumes wf: "wf_store d"
  shows "step_rel d (snd (extend_booking e now d user_id booking_id extend_hours extend_minutes))"
proof (cases "get_booking d booking_id")
  case None
  then show ?thesis by (simp add: extend_booking_def step_rel_refl)
next
  case (Some booking)
  show ?thesis
  proof (cases "case b_end_time booking of None \<Rightarrow> False | Some x \<Rightarrow> x \<le> now")
    case True
    with Some show ?thesis by (simp add: extend_booking_def auto_complete_step)
  next
    case False
    with Some show ?thesis
      unfolding extend_booking_def Let_def
      by (auto simp: if_ref_def step_rel_refl
            intro: extend_on_slot_step_zone [OF wf] split: option.splits if_splits sum.splits)
  qed
qed

lemma reachable_wf_inv:
  assumes "wf_store d0" "capacity_inv d0"
  shows "reachable e d0 d \<Longrightarrow> wf_store d \<and> capacity_inv d"
proof (induction rule: reachable.induct)
  case start
  show ?case using assms by simp
next
  case (fixed_slot_create d user_id slot_id)
  then show ?case
    using create_booking_step [of d e user_id slot_id]
    by (blast intro: step_rel_wf_store step_rel_capacity_inv)
next
  case (time_range_create d user_id booking_in)
  then show ?case
    using create_by_time_range_step [of d e user_id booking_in]
    by (blast intro: step_rel_wf_store step_rel_capacity_inv)
next
  case (cancel d user_id booking_id is_admin)
  then show ?case
    using cancel_booking_step [of d user_id booking_id is_admin]
    by (blast intro: step_rel_wf_store step_rel_capacity_inv)
next
  case (extend d now user_id booking_id extend_hours extend_minutes)
  then show ?case
    using extend_booking_step [of d e now user_id booking_id extend_hours extend_minutes]
    by (blast intro: step_rel_wf_store step_rel_capacity_inv)
next
  case (auto_complete_one d booking_id b now)
  then show ?case
    using auto_complete_step [of d now "Some b"]
    by (blast intro: step_rel_wf_store step_rel_capacity_inv)
next
  case (auto_complete_all d now)
  then show ?case
    using auto_complete_step [of d now None]
    by (blast intro: step_rel_wf_store step_rel_capacity_inv)
next
  case (closure d zone_id data)
  then show ?case
    using close_zone_step [of d zone_id data]
    by (blast intro: step_rel_wf_store step_rel_capacity_inv)
qed

text \<open>
  The capacity invariant in runs where the operations follow one another. Start
  from a store that satisfies the key constraints of the entity store and the
  invariant (a store without bookings does). In every store reached by fixed-slot
  create, create by time range, cancel, extend, auto-complete and zone closure, run
  one after the other with any arguments, for every zone \<open>z\<close> and instant \<open>t\<close> the
  number of active bookings whose slot lies in \<open>z\<close> and whose interval contains \<open>t\<close>
  is at most the number of active places of \<open>z\<close>.
\<close>

theorem serial_capacity_invariant:
  "wf_store d0 \<Longrightarrow> capacity_inv d0 \<Longrightarrow> reachable e d0 d \<Longrightarrow>
     occupancy d z t \<le> max_capacity d z"
  using reachable_wf_inv [of d0 e d] by (simp add: capacity_inv_def)

lemma capacity_inv_no_bookings: "bookings d = [] \<Longrightarrow> capacity_inv d"
  by (simp add: capacity_inv_def occupancy_def)

lemma demo_db_capacity_inv: "capacity_inv demo_db"
  by (auto simp: capacity_inv_def occupancy_def max_capacity_def active_places_def
        demo_db_def demo_booking_def booking_zone_id_def booking_slot_def slot_zone_id_def
        get_slot_def get_place_def)

lemma demo_db_wf_store: "wf_store demo_db"
  by (simp add: wf_store_def demo_db_def demo_booking_def demo_zone_def get_zone_def
        get_slot_def)

text \<open>
  After user 2 has booked slot 2 of the demo store, the one place of zone 1 is
  taken at 12:30, and no more.
\<close>

theorem serial_capacity_invariant_witness:
  "wf_store demo_db \<and> capacity_inv demo_db \<and>
   reachable demo_env demo_db (snd (create_booking demo_env demo_db 2 2)) \<and>
   occupancy (snd (create_booking demo_env demo_db 2 2)) 1 45000
     \<le> max_capacity (snd (create_booking demo_env demo_db 2 2)) 1 \<and>
   occupancy (snd (create_booking demo_env demo_db 2 2)) 1 45000 = 1"
proof -
  have r: "reachable demo_env demo_db (snd (create_booking demo_env demo_db 2 2))"
    by (rule reachable.fixed_slot_create) (rule reachable.start)
  have o: "occupancy (snd (create_booking demo_env demo_db 2 2)) 1 45000 = 1"
    by code_simp
  show ?thesis
    using demo_db_wf_store demo_db_capacity_inv r o
      serial_capacity_invariant [OF demo_db_wf_store demo_db_capacity_inv r, of 1 45000]
    by blast
qed

section \<open>The capacity invariant under requests at the same time\<close>

text \<open>
  C1. The capacity invariant does not hold in every store the operations reach: two
  time-range requests handled at the same time can both be admitted where the zone
  has room for one. In the demo zone with one active place and no bookings, user 1
  asks for 10:00 to 12:00 and user 2 for 11:00 to 13:00. On the committed store
  each request passes the capacity check and gets a new slot on place 1; the
  intervals differ, so neither the row lock nor the uniqueness constraint of the
  slots table stops the second. The store then holds two active bookings of zone 1
  whose intervals contain 11:30, on one active place. Run one after the other, the
  second request is refused with \<^verbatim>\<open>ZONE_CAPACITY_EXCEEDED\<close>.
\<close>

theorem concurrent_creates_exceed_capacity:
  "bookings demo_empty = [] \<and>
   active_place_count demo_empty 1 = 1 \<and>
   check_zone_capacity demo_empty 1 36000 43200 \<and>
   check_zone_capacity demo_empty 1 39600 46800 \<and>
   fst (create_booking_by_time_range demo_env demo_empty 1
          (demo_request ''1970-01-01'' 1 10 12)) = Inr demo_booking \<and>
   fst (create_booking_by_time_range demo_env demo_empty 2
          (demo_request ''1970-01-01'' 1 11 13)) =
     Inr (demo_overlap\<lparr>b_id := 1, b_slot_id := Some 1\<rparr>) \<and>
   create_by_time_range_at_once demo_env demo_empty
     1 (demo_request ''1970-01-01'' 1 10 12)
     2 (demo_request ''1970-01-01'' 1 11 13) = Some demo_overbooked \<and>
   bookings demo_overbooked = [demo_booking, demo_overlap] \<and>
   occupancy demo_overbooked 1 41400 = 2 \<and>
   active_place_count demo_overbooked 1 = 1 \<and>
   fst (create_booking_by_time_range demo_env
          (snd (create_booking_by_time_range demo_env demo_empty 1
                  (demo_request ''1970-01-01'' 1 10 12)))
          2 (demo_request ''1970-01-01'' 1 11 13)) =
     Inl (BookingError ''ZONE_CAPACITY_EXCEEDED'')"
proof (intro conjI)
  show "bookings demo_empty = []" by (simp add: demo_empty_def)
  show "active_place_count demo_empty 1 = 1" by code_simp
  show "check_zone_capacity demo_empty 1 36000 43200" by code_simp
  show "check_zone_capacity demo_empty 1 39600 46800" by code_simp
  show "fst (create_booking_by_time_range demo_env demo_empty 1
          (demo_request ''1970-01-01'' 1 10 12)) = Inr demo_booking"
    by code_simp
  show "fst (create_booking_by_time_range demo_env demo_empty 2
          (demo_request ''1970-01-01'' 1 11 13)) =
     Inr (demo_overlap\<lparr>b_id := 1, b_slot_id := Some 1\<rparr>)"
    by code_simp
  show "create_by_time_range_at_once demo_env demo_empty
     1 (demo_request ''1970-01-01'' 1 10 12)
     2 (demo_request ''1970-01-01'' 1 11 13) = Some demo_overbooked"
    by code_simp
  show "bookings demo_overbooked = [demo_booking, demo_overlap]"
    by (simp add: demo_overbooked_def)
  show "occupancy demo_overbooked 1 41400 = 2" by code_simp
  show "active_place_count demo_overbooked 1 = 1" by code_simp
  show "fst (create_booking_by_time_range demo_env
          (snd (create_booking_by_time_range demo_env demo_empty 1
                  (demo_request ''1970-01-01'' 1 10 12)))
          2 (demo_request ''1970-01-01'' 1 11 13)) =
     Inl (BookingError ''ZONE_CAPACITY_EXCEEDED'')"
    by code_simp
qed

section \<open>One active booking per slot, one slot per place and interval\<close>

subsection \<open>Each shape of step preserves the slot invariants\<close>

lemma slot_inv_le1: "slot_inv d \<Longrightarrow> length (active_on d i) \<le> 1"
  by (simp add: slot_inv_def)

lemma slot_inv_available:
  "slot_inv d \<Longrightarrow> get_slot d i = Some s \<Longrightarrow> s_is_available s \<Longrightarrow> active_on d i = []"
  unfolding slot_inv_def by (erule allE [of _ i]) simp

lemma active_on_map_le:
  assumes "\<And>b. relaxed b (f b)" "bookings d' = map f (bookings d)"
  shows "length (active_on d' i) \<le> length (active_on d i)"
proof -
  have "length (filter (\<lambda>b. b_slot_id (f b) = Some i \<and> b_status (f b) = ''active'') (bookings d))
        \<le> length (filter (\<lambda>b. b_slot_id b = Some i \<and> b_status b = ''active'') (bookings d))"
    by (rule length_filter_mono) (use assms(1) in \<open>auto simp: relaxed_def\<close>)
  then show ?thesis
    by (simp add: active_on_def assms(2) filter_map comp_def)
qed

lemma update_step_slot_inv:
  assumes u: "update_step d d'" and inv: "slot_inv d"
  shows "slot_inv d'"
proof -
  from u obtain f g where
    bk: "bookings d' = map f (bookings d)" and sl: "slots d' = map g (slots d)" and
    rf: "\<And>b. relaxed b (f b)" and kg: "\<And>s. kept_slot s (g s)" and
    av: "\<forall>s \<in> set (slots d). s_is_available (g s) \<longrightarrow>
             s_is_available s \<or>
             (\<forall>b \<in> set (active_on d (s_id s)). b_status (f b) \<noteq> ''active'')"
    unfolding update_step_def by blast
  have le: "\<And>i. length (active_on d' i) \<le> length (active_on d i)"
    using rf bk by (rule active_on_map_le)
  have gs: "\<And>i. get_slot d' i = map_option g (get_slot d i)"
    using sl by (rule get_slot_map) (use kg in \<open>simp add: kept_slot_def\<close>)
  show ?thesis
    unfolding slot_inv_def
  proof (intro allI conjI)
    fix i
    show "length (active_on d' i) \<le> 1"
      using le [of i] slot_inv_le1 [OF inv, of i] by linarith
    show "case get_slot d' i of None \<Rightarrow> True
          | Some s \<Rightarrow> s_is_available s \<longrightarrow> active_on d' i = []"
    proof (cases "get_slot d i")
      case None
      then show ?thesis by (simp add: gs)
    next
      case (Some s)
      then have sm: "s \<in> set (slots d)" "s_id s = i"
        unfolding get_slot_def by (auto dest: find_Some_P)
      have "active_on d' i = []" if a: "s_is_available (g s)"
      proof -
        from av sm(1) a consider "s_is_available s"
          | "\<forall>b \<in> set (active_on d (s_id s)). b_status (f b) \<noteq> ''active''" by blast
        then show ?thesis
        proof cases
          case 1
          with inv Some have "active_on d i = []" by (simp add: slot_inv_available)
          with le [of i] show ?thesis by simp
        next
          case 2
          have "\<And>b. b \<in> set (bookings d) \<Longrightarrow>
                  \<not> (b_slot_id (f b) = Some i \<and> b_status (f b) = ''active'')"
          proof
            fix b assume b: "b \<in> set (bookings d)"
              and c: "b_slot_id (f b) = Some i \<and> b_status (f b) = ''active''"
            with rf [of b] have "b \<in> set (active_on d i)"
              by (auto simp: active_on_def relaxed_def)
            with 2 sm(2) c show False by blast
          qed
          then show ?thesis
            by (auto simp: active_on_def bk filter_empty_conv)
        qed
      qed
      then show ?thesis by (simp add: gs Some)
    qed
  qed
qed

lemma slots_unique_map:
  assumes "\<And>s. kept_slot s (g s)"
  shows "slots_unique (d\<lparr>slots := map g (slots d)\<rparr>) = slots_unique d"
proof -
  have "map (\<lambda>s. (s_place_id s, s_start_time s, s_end_time s))
          (filter (\<lambda>s. s_place_id s \<noteq> None) (map g ss)) =
        map (\<lambda>s. (s_place_id s, s_start_time s, s_end_time s))
          (filter (\<lambda>s. s_place_id s \<noteq> None) ss)" for ss
    using assms by (induction ss) (auto simp: kept_slot_def)
  then show ?thesis by (simp add: slots_unique_def)
qed

lemma slots_unique_cong: "slots d' = slots d \<Longrightarrow> slots_unique d' = slots_unique d"
  by (simp add: slots_unique_def)

lemma update_step_slots_unique:
  assumes u: "update_step d d'" and inv: "slots_unique d"
  shows "slots_unique d'"
proof -
  from u obtain g where sl: "slots d' = map g (slots d)" and kg: "\<And>s. kept_slot s (g s)"
    unfolding update_step_def by blast
  have "slots_unique d' = slots_unique (d\<lparr>slots := map g (slots d)\<rparr>)"
    by (rule slots_unique_cong) (simp add: sl)
  with slots_unique_map [of g d, OF kg] inv show ?thesis by simp
qed

lemma book_existing_slots_unique:
  assumes u: "book_existing_step d d'" and inv: "slots_unique d"
  shows "slots_unique d'"
proof -
  from u obtain x :: slot where sl: "slots d' = set_slot_available (s_id x) False (slots d)"
    unfolding book_existing_step_def by blast
  let ?g = "\<lambda>s::slot. if s_id s = s_id x then s\<lparr>s_is_available := False\<rparr> else s"
  have "slots_unique d' = slots_unique (d\<lparr>slots := map ?g (slots d)\<rparr>)"
    by (rule slots_unique_cong) (simp add: sl set_slot_available_def)
  moreover have "slots_unique (d\<lparr>slots := map ?g (slots d)\<rparr>) = slots_unique d"
    by (rule slots_unique_map) (simp add: kept_slot_def)
  ultimately show ?thesis using inv by simp
qed

lemma book_new_slots_unique:
  assumes u: "book_new_step d d'" and inv: "slots_unique d"
  shows "slots_unique d'"
proof -
  from u obtain ns where ok: "slot_unique_ok (slots d) ns" and sl: "slots d' = slots d @ [ns]"
    unfolding book_new_step_def by blast
  show ?thesis
    using inv ok unfolding slots_unique_def sl slot_unique_ok_def
    by (auto simp: image_iff)
qed

lemma get_slot_other:
  "i \<noteq> j \<Longrightarrow> slots d' = set_slot_available j v (slots d) \<Longrightarrow> get_slot d' i = get_slot d i"
proof -
  assume ij: "i \<noteq> j" and sl: "slots d' = set_slot_available j v (slots d)"
  have "get_slot d' i =
        map_option (\<lambda>s. if s_id s = j then s\<lparr>s_is_available := v\<rparr> else s) (get_slot d i)"
    using sl unfolding set_slot_available_def by (rule get_slot_map) simp
  then show ?thesis using ij by (cases "get_slot d i") (auto dest: get_slot_id)
qed

lemma active_on_append:
  "bookings d' = bookings d @ [nb] \<Longrightarrow>
     active_on d' i =
       active_on d i @ (if b_slot_id nb = Some i \<and> b_status nb = ''active'' then [nb] else [])"
  by (simp add: active_on_def)

lemma book_existing_slot_inv:
  assumes u: "book_existing_step d d'" and wf: "wf_store d" and inv: "slot_inv d"
  shows "slot_inv d'"
proof -
  from u obtain x :: slot and nb where
    x: "x \<in> set (slots d)" "s_is_available x" and nb: "b_slot_id nb = Some (s_id x)" and
    sl: "slots d' = set_slot_available (s_id x) False (slots d)" and
    bk: "bookings d' = bookings d @ [nb]"
    unfolding book_existing_step_def by blast
  have gx: "get_slot d (s_id x) = Some x" using wf x(1) by (rule wf_get_slot)
  have e: "active_on d (s_id x) = []" using inv gx x(2) by (rule slot_inv_available)
  have gx': "get_slot d' (s_id x) = Some (x\<lparr>s_is_available := False\<rparr>)"
  proof -
    have "get_slot d' (s_id x) =
        map_option (\<lambda>s. if s_id s = s_id x then s\<lparr>s_is_available := False\<rparr> else s)
          (get_slot d (s_id x))"
      using sl unfolding set_slot_available_def by (rule get_slot_map) simp
    then show ?thesis by (simp add: gx)
  qed
  show ?thesis
    unfolding slot_inv_def
  proof (intro allI)
    fix i
    show "length (active_on d' i) \<le> 1 \<and>
          (case get_slot d' i of None \<Rightarrow> True
           | Some s \<Rightarrow> s_is_available s \<longrightarrow> active_on d' i = [])"
    proof (cases "i = s_id x")
      case True
      then show ?thesis using e gx' by (simp add: active_on_append [OF bk])
    next
      case False
      then have a: "active_on d' i = active_on d i"
        using nb by (auto simp: active_on_append [OF bk])
      have g: "get_slot d' i = get_slot d i" using False sl by (rule get_slot_other)
      show ?thesis
        unfolding a g using inv [unfolded slot_inv_def] by blast
    qed
  qed
qed

lemma wf_active_on_missing:
  assumes wf: "wf_store d" and g: "get_slot d i = None"
  shows "active_on d i = []"
proof -
  have "\<And>b. b \<in> set (bookings d) \<Longrightarrow> b_slot_id b \<noteq> Some i"
  proof
    fix b assume "b \<in> set (bookings d)" "b_slot_id b = Some i"
    with wf have "get_slot d i \<noteq> None" unfolding wf_store_def by force
    with g show False by simp
  qed
  then show ?thesis by (auto simp: active_on_def filter_empty_conv)
qed

lemma get_slot_append_other:
  "slots d' = slots d @ [ns] \<Longrightarrow> i \<noteq> s_id ns \<Longrightarrow> get_slot d' i = get_slot d i"
  unfolding get_slot_def
  by (cases "find (\<lambda>s. s_id s = i) (slots d)")
     (simp_all add: find_append_None find_append_Some)

lemma book_new_slot_inv:
  assumes u: "book_new_step d d'" and wf: "wf_store d" and inv: "slot_inv d"
  shows "slot_inv d'"
proof -
  from u obtain ns :: slot and nb where
    id: "s_id ns = next_id (map s_id (slots d))" and na: "\<not> s_is_available ns" and
    nb: "b_slot_id nb = Some (s_id ns)" and
    sl: "slots d' = slots d @ [ns]" and bk: "bookings d' = bookings d @ [nb]"
    unfolding book_new_step_def by blast
  have gn: "get_slot d (s_id ns) = None"
  proof (cases "get_slot d (s_id ns)")
    case (Some s)
    then have "s \<in> set (slots d)" "s_id s = s_id ns"
      unfolding get_slot_def by (auto dest: find_Some_P)
    then have "s_id ns \<in> s_id ` set (slots d)" by (metis imageI)
    then have "s_id ns \<in> set (map s_id (slots d))" by simp
    with next_id_fresh [of "slots d"] id show ?thesis by simp
  qed simp
  have e: "active_on d (s_id ns) = []" using wf gn by (rule wf_active_on_missing)
  have gx': "get_slot d' (s_id ns) = Some ns" using sl id by (rule get_slot_fresh)
  show ?thesis
    unfolding slot_inv_def
  proof (intro allI)
    fix i
    show "length (active_on d' i) \<le> 1 \<and>
          (case get_slot d' i of None \<Rightarrow> True
           | Some s \<Rightarrow> s_is_available s \<longrightarrow> active_on d' i = [])"
    proof (cases "i = s_id ns")
      case True
      then show ?thesis using e gx' na by (simp add: active_on_append [OF bk])
    next
      case False
      then have a: "active_on d' i = active_on d i"
        using nb by (auto simp: active_on_append [OF bk])
      have g: "get_slot d' i = get_slot d i" using sl False by (rule get_slot_append_other)
      show ?thesis
        unfolding a g using inv [unfolded slot_inv_def] by blast
    qed
  qed
qed

lemma fine_step_invariants:
  assumes "fine_step d d'" "wf_store d" "slot_inv d" "slots_unique d"
  shows "slot_inv d' \<and> slots_unique d'"
  using assms unfolding fine_step_def
  by (blast intro: update_step_slot_inv update_step_slots_unique book_existing_slot_inv
        book_existing_slots_unique book_new_slot_inv book_new_slots_unique)

subsection \<open>Every operation has one of the shapes\<close>

lemma length_le1_same: "length xs \<le> 1 \<Longrightarrow> x \<in> set xs \<Longrightarrow> y \<in> set xs \<Longrightarrow> y = x"
  by (cases xs) auto

lemma update_step_intro:
  assumes "bookings d' = map f (bookings d)" "slots d' = map g (slots d)"
    and "\<And>b. relaxed b (f b)" "\<And>s. kept_slot s (g s)"
    and "\<And>s b. s \<in> set (slots d) \<Longrightarrow> s_is_available (g s) \<Longrightarrow> \<not> s_is_available s \<Longrightarrow>
            b \<in> set (active_on d (s_id s)) \<Longrightarrow> b_status (f b) \<noteq> ''active''"
  shows "update_step d d'"
  unfolding update_step_def
  using assms by (intro exI [of _ f] exI [of _ g]) blast

lemma kept_slot_refl: "kept_slot s s" by (simp add: kept_slot_def)

lemma update_step_refl: "update_step d d"
  by (rule update_step_intro [where f = "\<lambda>b. b" and g = "\<lambda>s. s"])
     (simp_all add: relaxed_refl kept_slot_refl)

lemma fine_step_refl: "fine_step d d"
  by (simp add: fine_step_def update_step_refl)

lemma cancel_booking_fine:
  assumes inv: "slot_inv d"
  shows "fine_step d (snd (cancel_booking d user_id booking_id is_admin))"
proof (cases "get_booking d booking_id")
  case None
  then show ?thesis by (simp add: cancel_booking_def fine_step_refl)
next
  case (Some booking)
  note bm = get_booking_mem [OF Some]
  show ?thesis
  proof (cases "(\<not> is_admin \<and> b_user_id booking \<noteq> user_id) \<or> b_status booking \<noteq> ''active''")
    case True
    with Some show ?thesis by (auto simp: cancel_booking_def fine_step_refl)
  next
    case False
    then have act: "b_status booking = ''active''" by simp
    let ?f = "\<lambda>b. if b_id b = b_id booking then b\<lparr>b_status := ''cancelled''\<rparr> else b"
    have "update_step d (snd (cancel_booking d user_id booking_id is_admin))"
    proof (cases "if_ref (b_slot_id booking) (get_slot d)")
      case None
      show ?thesis
        by (rule update_step_intro [where f = ?f and g = "\<lambda>s. s"])
           (use Some False None in \<open>auto simp: cancel_booking_def Let_def
              set_booking_status_def kept_slot_def relaxed_def\<close>)
    next
      case (Some slot)
      then obtain sid where sid: "b_slot_id booking = Some sid" "get_slot d sid = Some slot"
        by (auto simp: if_ref_def split: option.splits if_splits)
      have ids: "s_id slot = sid" using sid(2) by (rule get_slot_id)
      let ?g = "\<lambda>s. if s_id s = s_id slot then s\<lparr>s_is_available := True\<rparr> else s"
      have only: "\<And>b. b \<in> set (active_on d sid) \<Longrightarrow> b = booking"
      proof -
        fix b assume b: "b \<in> set (active_on d sid)"
        have "booking \<in> set (active_on d sid)"
          using bm act sid(1) by (simp add: active_on_def)
        with slot_inv_le1 [OF inv, of sid] b show "b = booking"
          by (blast dest: length_le1_same)
      qed
      show ?thesis
      proof (rule update_step_intro [where f = ?f and g = ?g])
        show "bookings (snd (cancel_booking d user_id booking_id is_admin)) = map ?f (bookings d)"
          using \<open>get_booking d booking_id = Some booking\<close> False Some
          by (auto simp: cancel_booking_def Let_def set_booking_status_def)
        show "slots (snd (cancel_booking d user_id booking_id is_admin)) = map ?g (slots d)"
          using \<open>get_booking d booking_id = Some booking\<close> False Some
          by (auto simp: cancel_booking_def Let_def set_slot_available_def)
        show "\<And>b. relaxed b (?f b)" by (simp add: relaxed_def)
        show "\<And>s. kept_slot s (?g s)" by (simp add: kept_slot_def)
        fix s b
        assume "s_is_available (?g s)" "\<not> s_is_available s" "b \<in> set (active_on d (s_id s))"
        then have "b \<in> set (active_on d sid)" using ids by (auto split: if_splits)
        then have "b = booking" by (rule only)
        then show "b_status (?f b) \<noteq> ''active''" by simp
      qed
    qed
    then show ?thesis by (simp add: fine_step_def)
  qed
qed

lemma auto_complete_fine: "fine_step d (auto_complete_expired_bookings now d booking)"
proof -
  obtain f where f: "auto_complete_expired_bookings now d booking =
        d\<lparr>bookings := map f (bookings d)\<rparr>" and r: "\<And>b. relaxed b (f b)"
  proof (cases booking)
    case None
    show ?thesis
      by (rule that [of "\<lambda>b. if b_status b = ''active'' \<and> sql_le (b_end_time b) now
                        then b\<lparr>b_status := ''completed''\<rparr> else b"])
         (use None in \<open>auto simp: auto_complete_expired_bookings_def relaxed_def\<close>)
  next
    case (Some b)
    show ?thesis
    proof (cases "b_status b = ''active'' \<and> (\<exists>en. b_end_time b = Some en \<and> en \<le> now)")
      case True
      show ?thesis
        by (rule that [of "\<lambda>x. if b_id x = b_id b then x\<lparr>b_status := ''completed''\<rparr> else x"])
           (use Some True in \<open>auto simp: auto_complete_expired_bookings_def relaxed_def
              set_booking_status_def\<close>)
    next
      case False
      show ?thesis
        by (rule that [of "\<lambda>x. x"])
           (use Some False in \<open>auto simp: auto_complete_expired_bookings_def relaxed_def
              split: option.splits\<close>)
    qed
  qed
  have "update_step d (auto_complete_expired_bookings now d booking)"
    unfolding f
    by (rule update_step_intro [where f = f and g = "\<lambda>s. s"])
       (simp_all add: r kept_slot_refl)
  then show ?thesis by (simp add: fine_step_def)
qed

lemma close_zone_fine:
  assumes inv: "slot_inv d"
  shows "fine_step d (snd (close_zone d zone_id data))"
proof (cases "get_zone d zone_id")
  case None
  then show ?thesis by (simp add: close_zone_def fine_step_refl)
next
  case (Some z)
  let ?aff = "affected_by_closure d zone_id data"
  let ?g = "\<lambda>s. if \<exists>b \<in> set (filter ?aff (bookings d)). b_slot_id b = Some (s_id s)
                             then s\<lparr>s_is_available := True\<rparr> else s"
  let ?f = "\<lambda>b. if ?aff b then cancel_for_closure data b else b"
  have r: "bookings (snd (close_zone d zone_id data)) = map ?f (bookings d)"
       "slots (snd (close_zone d zone_id data)) = map ?g (slots d)"
    using Some by (simp_all add: close_zone_def Let_def)
  have "update_step d (snd (close_zone d zone_id data))"
  proof (rule update_step_intro [where f = ?f and g = ?g])
    show "\<And>b. relaxed b (?f b)" by (simp add: relaxed_def cancel_for_closure_def)
    show "\<And>s. kept_slot s (?g s)" by (simp add: kept_slot_def)
    fix s b
    assume a: "s_is_available (?g s)" "\<not> s_is_available s" "b \<in> set (active_on d (s_id s))"
    then obtain b0 where b0: "b0 \<in> set (bookings d)" "?aff b0" "b_slot_id b0 = Some (s_id s)"
      by (auto split: if_splits)
    then have "b_status b0 = ''active''"
      by (auto simp: affected_by_closure_def split: option.splits)
    with b0 have "b0 \<in> set (active_on d (s_id s))" by (simp add: active_on_def)
    with slot_inv_le1 [OF inv, of "s_id s"] have "b = b0" using a(3)
      by (blast dest: length_le1_same)
    with b0(2) show "b_status (?f b) \<noteq> ''active''" by (simp add: cancel_for_closure_def)
  qed (rule r)+
  then show ?thesis by (simp add: fine_step_def)
qed

lemma book_existing_intro:
  "x \<in> set (slots d) \<Longrightarrow> s_is_available x \<Longrightarrow>
     fine_step d (d\<lparr>slots := set_slot_available (s_id x) False (slots d),
                    bookings := bookings d @ [new_booking d user_id (s_id x) zo st en]\<rparr>)"
  unfolding fine_step_def book_existing_step_def
  by (intro disjI2 disjI1 exI [of _ x]
        exI [of _ "new_booking d user_id (s_id x) zo st en"])
     (simp add: new_booking_def)

lemma book_new_intro:
  "slot_unique_ok (slots d) (new_slot d pid st en) \<Longrightarrow>
     fine_step d (d\<lparr>slots := slots d @ [new_slot d pid st en],
             bookings := bookings d @
               [new_booking d user_id (s_id (new_slot d pid st en)) zo st en]\<rparr>)"
  unfolding fine_step_def book_new_step_def
  by (intro disjI2 exI [of _ "new_slot d pid st en"]
        exI [of _ "new_booking d user_id (s_id (new_slot d pid st en)) zo st en"])
     (simp add: new_booking_def new_slot_def)

lemma get_slot_mem: "get_slot d i = Some s \<Longrightarrow> s \<in> set (slots d)"
  unfolding get_slot_def by (drule find_Some_P) simp

lemma create_booking_fine: "fine_step d (snd (create_booking e d user_id slot_id))"
proof -
  from create_booking_shape [of e d user_id slot_id]
  show ?thesis
  proof (elim disjE exE conjE)
    assume "snd (create_booking e d user_id slot_id) = d"
    then show ?thesis by (simp add: fine_step_refl)
  next
    fix slot
    assume s: "get_slot d slot_id = Some slot"
      and r: "snd (create_booking e d user_id slot_id) =
        d\<lparr>slots := set_slot_available (s_id slot) False (slots d),
          bookings := bookings d @
            [new_booking d user_id (s_id slot) (load_zone d slot)
               (s_start_time slot) (s_end_time slot)]\<rparr>"
    have av: "s_is_available slot \<or> snd (create_booking e d user_id slot_id) = d"
      using s by (simp add: create_booking_def)
    then show ?thesis
    proof
      assume "s_is_available slot"
      with get_slot_mem [OF s] show ?thesis
        unfolding r by (rule book_existing_intro)
    next
      assume "snd (create_booking e d user_id slot_id) = d"
      then show ?thesis by (simp add: fine_step_refl)
    qed
  qed
qed

lemma try_places_fine: "fine_step d (snd (try_places e d user_id zn st en ps))"
proof (induction ps)
  case Nil
  show ?case by (simp add: fine_step_refl)
next
  case (Cons p ps)
  let ?q = "scalar_one_or_none
            (filter (\<lambda>s. s_place_id s = Some (p_id p) \<and> s_start_time s = st \<and>
                         s_end_time s = en) (slots d))"
  show ?case
  proof (cases ?q)
    case (Inl x)
    then show ?thesis by (simp add: fine_step_refl)
  next
    case (Inr o1)
    show ?thesis
    proof (cases o1)
      case (Some x)
      with Inr have "?q = Inr (Some x)" by simp
      then have "x \<in> set (filter (\<lambda>s. s_place_id s = Some (p_id p) \<and> s_start_time s = st \<and>
                         s_end_time s = en) (slots d))"
        by (rule scalar_one_or_none_Some)
      then have x: "x \<in> set (slots d)" by simp
      note bk = book_existing_intro [OF x, of user_id "Some zn" st en]
      show ?thesis
        using Inr Some Cons.IH bk by (simp add: Let_def fine_step_refl)
    next
      case None
      note bk = book_new_intro [of d "Some (p_id p)" st en user_id "Some zn"]
      show ?thesis
        using Inr None Cons.IH bk by (simp add: Let_def fine_step_refl)
    qed
  qed
qed

lemma create_by_time_range_fine:
  "fine_step d (snd (create_booking_by_time_range e d user_id booking_in))"
proof -
  have "snd (create_booking_by_time_range e d user_id booking_in) = d \<or>
        (\<exists>z st en.
           snd (create_booking_by_time_range e d user_id booking_in) =
             snd (try_places e d user_id z st en (active_places d (z_id z))))"
    by (auto simp: create_booking_by_time_range_def Let_def split: option.splits sum.splits)
  then show ?thesis
    by (auto simp: fine_step_refl try_places_fine)
qed

lemma extend_on_slot_fine: "fine_step d (snd (extend_on_slot e d user_id slot zn et ne))"
proof -
  let ?q = "scalar_one_or_none
            (filter (\<lambda>s. s_place_id s \<noteq> None \<and> s_place_id s = s_place_id slot \<and>
                         s_start_time s = et \<and> s_end_time s = ne) (slots d))"
  show ?thesis
  proof (cases ?q)
    case (Inl x)
    then show ?thesis by (simp add: extend_on_slot_def fine_step_refl)
  next
    case (Inr o1)
    show ?thesis
    proof (cases o1)
      case (Some x)
      with Inr have "?q = Inr (Some x)" by simp
      then have "x \<in> set (filter (\<lambda>s. s_place_id s \<noteq> None \<and> s_place_id s = s_place_id slot \<and>
                         s_start_time s = et \<and> s_end_time s = ne) (slots d))"
        by (rule scalar_one_or_none_Some)
      then have x: "x \<in> set (slots d)" by simp
      note bk = book_existing_intro [OF x, of user_id "Some zn" et ne]
      show ?thesis
        using Inr Some bk by (simp add: extend_on_slot_def Let_def fine_step_refl)
    next
      case None
      note bk = book_new_intro [of d "s_place_id slot" et ne user_id "Some zn"]
      show ?thesis
        using Inr None bk by (simp add: extend_on_slot_def Let_def fine_step_refl)
    qed
  qed
qed

lemma extend_booking_fine:
  "fine_step d (snd (extend_booking e now d user_id booking_id extend_hours extend_minutes))"
proof (cases "get_booking d booking_id")
  case None
  then show ?thesis by (simp add: extend_booking_def fine_step_refl)
next
  case (Some booking)
  show ?thesis
  proof (cases "case b_end_time booking of None \<Rightarrow> False | Some x \<Rightarrow> x \<le> now")
    case True
    with Some show ?thesis by (simp add: extend_booking_def auto_complete_fine)
  next
    case False
    with Some show ?thesis
      unfolding extend_booking_def Let_def
      by (auto simp: fine_step_refl extend_on_slot_fine
            split: option.splits if_splits sum.splits)
  qed
qed

lemma reachable_store_inv:
  assumes "wf_store d0" "slot_inv d0" "slots_unique d0"
  shows "reachable e d0 d \<Longrightarrow> wf_store d \<and> slot_inv d \<and> slots_unique d"
proof (induction rule: reachable.induct)
  case start
  show ?case using assms by simp
next
  case (fixed_slot_create d user_id slot_id)
  then show ?case
    using create_booking_step [of d e user_id slot_id]
      create_booking_fine [of d e user_id slot_id]
    by (blast intro: step_rel_wf_store dest: fine_step_invariants)
next
  case (time_range_create d user_id booking_in)
  then show ?case
    using create_by_time_range_step [of d e user_id booking_in]
      create_by_time_range_fine [of d e user_id booking_in]
    by (blast intro: step_rel_wf_store dest: fine_step_invariants)
next
  case (cancel d user_id booking_id is_admin)
  then show ?case
    using cancel_booking_step [of d user_id booking_id is_admin]
      cancel_booking_fine [of d user_id booking_id is_admin]
    by (blast intro: step_rel_wf_store dest: fine_step_invariants)
next
  case (extend d now user_id booking_id extend_hours extend_minutes)
  then show ?case
    using extend_booking_step [of d e now user_id booking_id extend_hours extend_minutes]
      extend_booking_fine [of d e now user_id booking_id extend_hours extend_minutes]
    by (blast intro: step_rel_wf_store dest: fine_step_invariants)
next
  case (auto_complete_one d booking_id b now)
  then show ?case
    using auto_complete_step [of d now "Some b"] auto_complete_fine [of d now "Some b"]
    by (blast intro: step_rel_wf_store dest: fine_step_invariants)
next
  case (auto_complete_all d now)
  then show ?case
    using auto_complete_step [of d now None] auto_complete_fine [of d now None]
    by (blast intro: step_rel_wf_store dest: fine_step_invariants)
next
  case (closure d zone_id data)
  then show ?case
    using close_zone_step [of d zone_id data] close_zone_fine [of d zone_id data]
    by (blast intro: step_rel_wf_store dest: fine_step_invariants)
qed

text \<open>
  In every store reached from a store with the key constraints, one active booking
  per slot and unique slots, a user holds at most one active booking on any slot.
\<close>

lemma reachable_existing_lookup:
  assumes "wf_store d0" "slot_inv d0" "slots_unique d0" "reachable e d0 d"
  shows "length (filter (\<lambda>b. b_user_id b = user_id \<and> b_slot_id b = Some slot_id \<and>
                               b_status b = ''active'') (bookings d)) \<le> 1"
proof -
  have "slot_inv d" using reachable_store_inv [OF assms] by simp
  then have "length (active_on d slot_id) \<le> 1" by (rule slot_inv_le1)
  moreover have "length (filter (\<lambda>b. b_user_id b = user_id \<and> b_slot_id b = Some slot_id \<and>
                               b_status b = ''active'') (bookings d))
                 \<le> length (active_on d slot_id)"
    unfolding active_on_def by (rule length_filter_mono) simp
  ultimately show ?thesis by linarith
qed

lemma demo_db_slot_inv: "slot_inv demo_db"
  unfolding slot_inv_def
proof (intro allI)
  fix i
  have a: "active_on demo_db i = (if i = 1 then [demo_booking] else [])"
    by (simp add: active_on_def demo_db_def demo_booking_def)
  have g: "get_slot demo_db i =
      (if i = 1 then Some (slots demo_db ! 0) else if i = 2 then Some (slots demo_db ! 1) else None)"
    by (simp add: get_slot_def demo_db_def)
  show "length (active_on demo_db i) \<le> 1 \<and>
        (case get_slot demo_db i of None \<Rightarrow> True
         | Some s \<Rightarrow> s_is_available s \<longrightarrow> active_on demo_db i = [])"
    unfolding a g by (simp add: demo_db_def)
qed

lemma demo_db_slots_unique: "slots_unique demo_db"
  by code_simp

text \<open>
  Start from a store with the key constraints, at most one active booking per
  slot (none on an available slot) and at most one slot per place and interval.
  Every store the operations reach has at most one slot per place and interval
  and at most one active booking per slot, none on an available slot; so no user
  holds two active bookings on one slot.
\<close>

theorem reachable_slot_invariants:
  "wf_store d0 \<Longrightarrow> slot_inv d0 \<Longrightarrow> slots_unique d0 \<Longrightarrow> reachable e d0 d \<Longrightarrow>
     slots_unique d \<and>
     length (active_on d slot_id) \<le> 1 \<and>
     (\<forall>s. get_slot d slot_id = Some s \<and> s_is_available s \<longrightarrow> active_on d slot_id = []) \<and>
     length (filter (\<lambda>b. b_user_id b = user_id \<and> b_slot_id b = Some slot_id \<and>
                          b_status b = ''active'') (bookings d)) \<le> 1"
proof -
  assume a: "wf_store d0" "slot_inv d0" "slots_unique d0" "reachable e d0 d"
  have i: "slot_inv d" "slots_unique d" using reachable_store_inv [OF a] by simp_all
  show ?thesis
    using i reachable_existing_lookup [OF a, of user_id slot_id]
      slot_inv_le1 [OF i(1), of slot_id] slot_inv_available [OF i(1), of slot_id]
    by blast
qed

text \<open>After user 2 has booked slot 2 of the demo store, slot 2 has that one booking.\<close>

theorem reachable_slot_invariants_witness:
  "wf_store demo_db \<and> slot_inv demo_db \<and> slots_unique demo_db \<and>
   reachable demo_env demo_db (snd (create_booking demo_env demo_db 2 2)) \<and>
   slots_unique (snd (create_booking demo_env demo_db 2 2)) \<and>
   length (active_on (snd (create_booking demo_env demo_db 2 2)) 2) \<le> 1 \<and>
   active_on (snd (create_booking demo_env demo_db 2 2)) 2 = [demo_second]"
proof -
  have r: "reachable demo_env demo_db (snd (create_booking demo_env demo_db 2 2))"
    by (rule reachable.fixed_slot_create) (rule reachable.start)
  have o: "active_on (snd (create_booking demo_env demo_db 2 2)) 2 = [demo_second]"
    by code_simp
  show ?thesis
    using demo_db_wf_store demo_db_slot_inv demo_db_slots_unique r o
      reachable_slot_invariants [OF demo_db_wf_store demo_db_slot_inv demo_db_slots_unique r,
        of 2 2]
    by blast
qed

end
